theory Spec2Isabelle
  imports Complex_Main
begin

section \<open>Values and errors\<close>

text \<open>
  The program is \<^verbatim>\<open>project.py\<close>. Its numbers are numpy floats; they are modelled by
  the reals, extended by \<^verbatim>\<open>np.inf\<close> for the entries of the table \<^verbatim>\<open>D\<close>. Rounding,
  overflow and NaN are outside the model. The exceptions numpy raises are values of
  \<open>error\<close>.
\<close>

datatype error = TypeError | ValueError | IndexError

datatype cost = Finite real | Infinity

fun cost_add :: "cost \<Rightarrow> cost \<Rightarrow> cost" where
  "cost_add (Finite a) (Finite b) = Finite (a + b)"
| "cost_add _ _ = Infinity"

fun cost_less :: "cost \<Rightarrow> cost \<Rightarrow> bool" where
  "cost_less (Finite a) (Finite b) = (a < b)"
| "cost_less (Finite a) Infinity = True"
| "cost_less Infinity _ = False"

text \<open>
  A \<^verbatim>\<open>np.poly1d\<close> is its list of coefficients, highest degree first, evaluated by
  Horner's rule as \<^verbatim>\<open>np.polyval\<close> does.
\<close>

type_synonym poly1d = "real list"

definition polyval :: "poly1d \<Rightarrow> real \<Rightarrow> real" where
  "polyval p x = foldl (\<lambda>acc c. acc * x + c) 0 p"

text \<open>
  \<^verbatim>\<open>np.polyfit(x, y, 2)\<close> is a library function: the model takes the fit as a
  parameter \<open>polyfit\<close> and keeps numpy's own argument checks, which raise
  \<^verbatim>\<open>TypeError\<close> on an empty \<open>x\<close> and on vectors of different lengths.
\<close>

definition np_polyfit ::
  "(real list \<Rightarrow> real list \<Rightarrow> poly1d) \<Rightarrow> real list \<Rightarrow> real list \<Rightarrow> error + poly1d" where
  "np_polyfit polyfit x y =
     (if x = [] \<or> length x \<noteq> length y then Inl TypeError else Inr (polyfit x y))"

text \<open>
  The exact least-squares parabola through the points \<open>(x\<^sub>i, y\<^sub>i)\<close>, by Cramer's rule
  on the normal equations: the real-number idealisation of \<^verbatim>\<open>np.polyfit(x, y, 2)\<close>
  for at least three distinct abscissae. It instantiates \<open>polyfit\<close> in concrete runs.
\<close>

definition power_sum :: "nat \<Rightarrow> real list \<Rightarrow> real" where
  "power_sum j x = sum_list (map (\<lambda>t. t ^ j) x)"

definition moment_sum :: "nat \<Rightarrow> real list \<Rightarrow> real list \<Rightarrow> real" where
  "moment_sum j x y = sum_list (map (\<lambda>(t, v). t ^ j * v) (zip x y))"

definition det3 ::
  "real \<Rightarrow> real \<Rightarrow> real \<Rightarrow> real \<Rightarrow> real \<Rightarrow> real \<Rightarrow> real \<Rightarrow> real \<Rightarrow> real \<Rightarrow> real" where
  "det3 a b c d e f g h i = a * (e * i - f * h) - b * (d * i - f * g) + c * (d * h - e * g)"

definition lstsq_parabola :: "real list \<Rightarrow> real list \<Rightarrow> poly1d" where
  "lstsq_parabola x y =
     (let s0 = power_sum 0 x; s1 = power_sum 1 x; s2 = power_sum 2 x;
          s3 = power_sum 3 x; s4 = power_sum 4 x;
          t0 = moment_sum 0 x y; t1 = moment_sum 1 x y; t2 = moment_sum 2 x y;
          d = det3 s4 s3 s2 s3 s2 s1 s2 s1 s0
      in [det3 t2 s3 s2 t1 s2 s1 t0 s1 s0 / d,
          det3 s4 t2 s2 s3 t1 s1 s2 t0 s0 / d,
          det3 s4 s3 t2 s3 s2 t1 s2 s1 t0 / d])"

text \<open>
  A Python slice \<^verbatim>\<open>xs[start:end]\<close> with non-negative bounds: it is cut short, not an
  error, when \<open>end\<close> exceeds the length.
\<close>

definition slice :: "nat \<Rightarrow> nat \<Rightarrow> 'a list \<Rightarrow> 'a list" where
  "slice start end' xs = drop start (take end' xs)"

text \<open>
  \<^verbatim>\<open>y - parab(x)\<close> on one-dimensional operands: numpy broadcasts a length-one operand
  and raises \<^verbatim>\<open>ValueError\<close> on any other mismatch of lengths.
\<close>

definition broadcast_sub :: "real list \<Rightarrow> real list \<Rightarrow> error + real list" where
  "broadcast_sub ys ps =
     (if length ys = length ps then Inr (map (\<lambda>(y, p). y - p) (zip ys ps))
      else if length ys = 1 then Inr (map (\<lambda>p. hd ys - p) ps)
      else if length ps = 1 then Inr (map (\<lambda>y. y - hd ps) ys)
      else Inl ValueError)"

section \<open>The fit and residual caches\<close>

text \<open>
  \<^verbatim>\<open>parabola_cache\<close> and \<^verbatim>\<open>mse_cache\<close> are module-level dictionaries keyed by
  \<open>(start, end)\<close>. They are the state every call of \<open>generate_parab\<close>, \<open>MSE\<close> and
  \<open>segment\<close> reads and returns.
\<close>

record caches =
  parabola_cache :: "(nat \<times> nat) \<rightharpoonup> poly1d"
  mse_cache :: "(nat \<times> nat) \<rightharpoonup> real"

definition empty_caches :: caches where
  "empty_caches = \<lparr>parabola_cache = Map.empty, mse_cache = Map.empty\<rparr>"

definition generate_parab ::
  "(real list \<Rightarrow> real list \<Rightarrow> poly1d) \<Rightarrow> nat \<Rightarrow> nat \<Rightarrow> real list \<Rightarrow> caches
     \<Rightarrow> error + (poly1d \<times> caches)" where
  "generate_parab polyfit start end' distances c =
     (let key = (start, end') in
      case parabola_cache c key of
        Some parab \<Rightarrow> Inr (parab, c)
      | None \<Rightarrow>
          (let x = map real [start..<end'];
               y = slice start end' distances
           in case np_polyfit polyfit x y of
                Inl err \<Rightarrow> Inl err
              | Inr parab \<Rightarrow>
                  Inr (parab, c\<lparr>parabola_cache := (parabola_cache c)(key \<mapsto> parab)\<rparr>)))"

definition MSE ::
  "nat \<Rightarrow> nat \<Rightarrow> real list \<Rightarrow> poly1d \<Rightarrow> caches \<Rightarrow> error + (real \<times> caches)" where
  "MSE start end' distances parab c =
     (let key = (start, end') in
      case mse_cache c key of
        Some v \<Rightarrow> Inr (v, c)
      | None \<Rightarrow>
          (let x = map real [start..<end'];
               y = slice start end' distances
           in case broadcast_sub y (map (polyval parab) x) of
                Inl err \<Rightarrow> Inl err
              | Inr d \<Rightarrow>
                  (let mse_value = sum_list (map (\<lambda>t. t ^ 2) d)
                   in Inr (mse_value, c\<lparr>mse_cache := (mse_cache c)(key \<mapsto> mse_value)\<rparr>))))"

section \<open>The partitioner\<close>

text \<open>
  A \<^verbatim>\<open>for\<close> loop whose body may raise: the state is threaded through the iterations
  and the first error ends the loop.
\<close>

fun for_each :: "('a \<Rightarrow> 's \<Rightarrow> error + 's) \<Rightarrow> 'a list \<Rightarrow> 's \<Rightarrow> error + 's" where
  "for_each body [] s = Inr s"
| "for_each body (x # xs) s =
     (case body x s of Inl err \<Rightarrow> Inl err | Inr s' \<Rightarrow> for_each body xs s')"

text \<open>
  The tables \<^verbatim>\<open>D\<close> and \<^verbatim>\<open>P\<close> are arrays of shape \<open>(n+1, k+1)\<close>, modelled as functions
  of the index pair. Every index the three loops of \<open>segment\<close> use lies inside the
  shape (\<open>start \<le> end \<le> n\<close>, \<open>1 \<le> length \<le> k\<close>); the reconstruction indexes \<^verbatim>\<open>P\<close>
  with a stored value, which numpy wraps when negative (\<open>np_index\<close>).
\<close>

type_synonym dtable = "nat \<times> nat \<Rightarrow> cost"
type_synonym ptable = "nat \<times> nat \<Rightarrow> int"

definition np_index :: "nat \<Rightarrow> int \<Rightarrow> error + nat" where
  "np_index size' i =
     (if 0 \<le> i \<and> i < int size' then Inr (nat i)
      else if - int size' \<le> i \<and> i < 0 then Inr (nat (i + int size'))
      else Inl IndexError)"

text \<open>The body of the innermost loop, over \<open>start\<close> (lines 176 to 187).\<close>

definition start_body ::
  "(real list \<Rightarrow> real list \<Rightarrow> poly1d) \<Rightarrow> real list \<Rightarrow> dtable \<Rightarrow> nat \<Rightarrow> nat \<Rightarrow> nat
     \<Rightarrow> cost \<times> int \<times> caches \<Rightarrow> error + (cost \<times> int \<times> caches)" where
  "start_body polyfit distances D len end' start st =
     (case st of (min_dist, min_index, c) \<Rightarrow>
        if end' - start < 3 then Inr (min_dist, min_index, c)
        else
          (case generate_parab polyfit start end' distances c of
             Inl err \<Rightarrow> Inl err
           | Inr (parab, c1) \<Rightarrow>
               (case MSE start end' distances parab c1 of
                  Inl err \<Rightarrow> Inl err
                | Inr (mse, c2) \<Rightarrow>
                    if cost_less (cost_add (D (start, len - 1)) (Finite mse)) min_dist
                    then Inr (cost_add (D (start, len - 1)) (Finite mse), int start, c2)
                    else Inr (min_dist, min_index, c2))))"

text \<open>The body of the loop over \<open>end\<close> (lines 171 to 191).\<close>

definition end_body ::
  "(real list \<Rightarrow> real list \<Rightarrow> poly1d) \<Rightarrow> real list \<Rightarrow> nat \<Rightarrow> nat
     \<Rightarrow> dtable \<times> ptable \<times> caches \<Rightarrow> error + (dtable \<times> ptable \<times> caches)" where
  "end_body polyfit distances len end' st =
     (case st of (D, P, c) \<Rightarrow>
        (case for_each (start_body polyfit distances D len end') [0..<end' - len + 1]
                (Infinity, - 1, c) of
           Inl err \<Rightarrow> Inl err
         | Inr (min_dist, min_index, c') \<Rightarrow>
             Inr (D((end', len) := min_dist), P((end', len) := min_index), c')))"

text \<open>The body of the loop over \<open>length\<close> (lines 169 to 191).\<close>

definition length_body ::
  "(real list \<Rightarrow> real list \<Rightarrow> poly1d) \<Rightarrow> real list \<Rightarrow> nat \<Rightarrow> nat
     \<Rightarrow> dtable \<times> ptable \<times> caches \<Rightarrow> error + (dtable \<times> ptable \<times> caches)" where
  "length_body polyfit distances n len st =
     for_each (end_body polyfit distances len) [len..<n + 1] st"

definition D_init :: dtable where
  "D_init = (\<lambda>_. Infinity)((0, 0) := Finite 0)"

definition P_init :: ptable where
  "P_init = (\<lambda>_. - 1)"

text \<open>The dynamic programme of \<open>segment\<close> (lines 163 to 191): the tables it fills.\<close>

definition segment_tables ::
  "(real list \<Rightarrow> real list \<Rightarrow> poly1d) \<Rightarrow> nat \<Rightarrow> nat \<Rightarrow> real list \<Rightarrow> caches
     \<Rightarrow> error + (dtable \<times> ptable \<times> caches)" where
  "segment_tables polyfit n k distances c =
     for_each (length_body polyfit distances n) [1..<k + 1] (D_init, P_init, c)"

text \<open>
  The reconstruction (lines 194 to 198): \<open>walk\<close> is the loop over
  \<^verbatim>\<open>range(k, 0, -1)\<close>, appending \<open>current - 1\<close> and then reading \<^verbatim>\<open>P[current, i]\<close>.
\<close>

fun walk :: "ptable \<Rightarrow> nat \<Rightarrow> nat list \<Rightarrow> int \<Rightarrow> int list \<Rightarrow> error + int list" where
  "walk P n [] current path = Inr path"
| "walk P n (i # is) current path =
     (case np_index (n + 1) current of
        Inl err \<Rightarrow> Inl err
      | Inr row \<Rightarrow> walk P n is (P (row, i)) (path @ [current - 1]))"

definition segment ::
  "(real list \<Rightarrow> real list \<Rightarrow> poly1d) \<Rightarrow> nat \<Rightarrow> nat \<Rightarrow> real list \<Rightarrow> caches
     \<Rightarrow> error + (int list \<times> caches)" where
  "segment polyfit n k distances c =
     (case segment_tables polyfit n k distances c of
        Inl err \<Rightarrow> Inl err
      | Inr (D, P, c') \<Rightarrow>
          (case walk P n (rev [1..<k + 1]) (P (n, k)) [] of
             Inl err \<Rightarrow> Inl err
           | Inr path \<Rightarrow> Inr (rev path, c')))"

section \<open>What a call computes\<close>

text \<open>
  The fit and the residual a call of \<open>segment\<close> obtains for a key, when it starts with the
  caches \<open>c0\<close>: the cached entry if there is one, else the value computed from the signal.
\<close>

definition seen_fit ::
  "(real list \<Rightarrow> real list \<Rightarrow> poly1d) \<Rightarrow> real list \<Rightarrow> caches \<Rightarrow> nat \<Rightarrow> nat \<Rightarrow> poly1d" where
  "seen_fit polyfit distances c0 start end' =
     (case parabola_cache c0 (start, end') of
        Some parab \<Rightarrow> parab
      | None \<Rightarrow> polyfit (map real [start..<end']) (slice start end' distances))"

definition seen_residual ::
  "(real list \<Rightarrow> real list \<Rightarrow> poly1d) \<Rightarrow> real list \<Rightarrow> caches \<Rightarrow> nat \<Rightarrow> nat \<Rightarrow> real" where
  "seen_residual polyfit distances c0 start end' =
     (case mse_cache c0 (start, end') of
        Some v \<Rightarrow> v
      | None \<Rightarrow>
          sum_list (map (\<lambda>t. t ^ 2)
            (map (\<lambda>(y, p). y - p)
               (zip (slice start end' distances)
                  (map (polyval (seen_fit polyfit distances c0 start end'))
                     (map real [start..<end']))))))"

text \<open>
  The three loops without the caches, over a residual function \<open>res\<close>: \<open>scan\<close> is the loop
  over \<open>start\<close> for one table entry, with \<open>prev\<close> the column \<open>length - 1\<close> of \<^verbatim>\<open>D\<close>.
\<close>

definition scan_step ::
  "(nat \<Rightarrow> nat \<Rightarrow> real) \<Rightarrow> (nat \<Rightarrow> cost) \<Rightarrow> nat \<Rightarrow> nat \<Rightarrow> cost \<times> int \<Rightarrow> cost \<times> int" where
  "scan_step res prev end' start st =
     (case st of (min_dist, min_index) \<Rightarrow>
        if end' - start < 3 then (min_dist, min_index)
        else if cost_less (cost_add (prev start) (Finite (res start end'))) min_dist
        then (cost_add (prev start) (Finite (res start end')), int start)
        else (min_dist, min_index))"

definition scan ::
  "(nat \<Rightarrow> nat \<Rightarrow> real) \<Rightarrow> (nat \<Rightarrow> cost) \<Rightarrow> nat \<Rightarrow> nat \<Rightarrow> cost \<times> int" where
  "scan res prev len end' = fold (scan_step res prev end') [0..<end' - len + 1] (Infinity, - 1)"

definition fill_end ::
  "(nat \<Rightarrow> nat \<Rightarrow> real) \<Rightarrow> nat \<Rightarrow> nat \<Rightarrow> dtable \<times> ptable \<Rightarrow> dtable \<times> ptable" where
  "fill_end res len end' T =
     (case T of (D, P) \<Rightarrow>
        (D((end', len) := fst (scan res (\<lambda>s. D (s, len - 1)) len end')),
         P((end', len) := snd (scan res (\<lambda>s. D (s, len - 1)) len end'))))"

definition fill_layer ::
  "(nat \<Rightarrow> nat \<Rightarrow> real) \<Rightarrow> nat \<Rightarrow> nat \<Rightarrow> dtable \<times> ptable \<Rightarrow> dtable \<times> ptable" where
  "fill_layer res n len T = fold (fill_end res len) [len..<n + 1] T"

definition fill_tables :: "(nat \<Rightarrow> nat \<Rightarrow> real) \<Rightarrow> nat \<Rightarrow> nat \<Rightarrow> dtable \<times> ptable" where
  "fill_tables res n k = fold (fill_layer res n) [1..<k + 1] (D_init, P_init)"

text \<open>
  The caches \<open>c\<close> of a running call that started with \<open>c0\<close>: every entry is the value the
  call sees for its key, and no entry of \<open>c0\<close> is lost.
\<close>

definition cache_ok ::
  "(real list \<Rightarrow> real list \<Rightarrow> poly1d) \<Rightarrow> real list \<Rightarrow> caches \<Rightarrow> caches \<Rightarrow> bool" where
  "cache_ok polyfit distances c0 c \<longleftrightarrow>
     (\<forall>s e. case parabola_cache c (s, e) of
              None \<Rightarrow> parabola_cache c0 (s, e) = None
            | Some p \<Rightarrow> p = seen_fit polyfit distances c0 s e) \<and>
     (\<forall>s e. case mse_cache c (s, e) of
              None \<Rightarrow> mse_cache c0 (s, e) = None
            | Some v \<Rightarrow> v = seen_residual polyfit distances c0 s e)"

text \<open>The keys the loops look up, by loop.\<close>

definition start_keys :: "nat \<Rightarrow> nat \<Rightarrow> (nat \<times> nat) set" where
  "start_keys end' start = (if end' - start < 3 then {} else {(start, end')})"

definition end_keys :: "nat \<Rightarrow> nat \<Rightarrow> (nat \<times> nat) set" where
  "end_keys len end' = (\<Union>start\<in>set [0..<end' - len + 1]. start_keys end' start)"

definition layer_keys :: "nat \<Rightarrow> nat \<Rightarrow> (nat \<times> nat) set" where
  "layer_keys n len = (\<Union>end'\<in>set [len..<n + 1]. end_keys len end')"

text \<open>The order of the costs, with \<open>Infinity\<close> on top: \<open>cost_less\<close> is its strict part.\<close>

instantiation cost :: linorder
begin

definition less_cost :: "cost \<Rightarrow> cost \<Rightarrow> bool" where
  "less_cost a b = cost_less a b"

definition less_eq_cost :: "cost \<Rightarrow> cost \<Rightarrow> bool" where
  "less_eq_cost a b = (\<not> cost_less b a)"

instance
proof
  fix x y z :: cost
  show "(x < y) = (x \<le> y \<and> \<not> y \<le> x)"
    by (cases x; cases y) (auto simp: less_cost_def less_eq_cost_def)
  show "x \<le> x"
    by (cases x) (auto simp: less_eq_cost_def)
  show "x \<le> y \<Longrightarrow> y \<le> z \<Longrightarrow> x \<le> z"
    by (cases x; cases y; cases z) (auto simp: less_eq_cost_def)
  show "x \<le> y \<Longrightarrow> y \<le> x \<Longrightarrow> x = y"
    by (cases x; cases y) (auto simp: less_eq_cost_def)
  show "x \<le> y \<or> y \<le> x"
    by (cases x; cases y) (auto simp: less_eq_cost_def)
qed

end

text \<open>
  The cost of ending a segment at \<open>end\<close> that starts at \<open>start\<close>, and what the scan holds
  after the starts below \<open>m\<close>: nothing, when no start with three points has a finite
  predecessor, else the first start of least cost.
\<close>

definition candidate :: "(nat \<Rightarrow> nat \<Rightarrow> real) \<Rightarrow> (nat \<Rightarrow> cost) \<Rightarrow> nat \<Rightarrow> nat \<Rightarrow> cost" where
  "candidate res prev end' start = cost_add (prev start) (Finite (res start end'))"

definition scan_inv ::
  "(nat \<Rightarrow> nat \<Rightarrow> real) \<Rightarrow> (nat \<Rightarrow> cost) \<Rightarrow> nat \<Rightarrow> nat \<Rightarrow> cost \<times> int \<Rightarrow> bool" where
  "scan_inv res prev end' m st \<longleftrightarrow>
     (st = (Infinity, - 1) \<and> (\<forall>s<m. 3 \<le> end' - s \<longrightarrow> prev s = Infinity)) \<or>
     (\<exists>s<m. st = (candidate res prev end' s, int s) \<and> 3 \<le> end' - s \<and> prev s \<noteq> Infinity \<and>
        (\<forall>t<m. 3 \<le> end' - t \<longrightarrow> candidate res prev end' s \<le> candidate res prev end' t) \<and>
        (\<forall>t<s. 3 \<le> end' - t \<longrightarrow> candidate res prev end' s < candidate res prev end' t))"

text \<open>
  The recurrence the loops implement: \<open>layer res n l end\<close> is the pair
  \<^verbatim>\<open>(D[end][l], P[end][l])\<close> after the loops, for a table of \<open>n + 1\<close> rows.
\<close>

fun layer :: "(nat \<Rightarrow> nat \<Rightarrow> real) \<Rightarrow> nat \<Rightarrow> nat \<Rightarrow> nat \<Rightarrow> cost \<times> int" where
  "layer res n 0 end' = (if end' = 0 then Finite 0 else Infinity, - 1)"
| "layer res n (Suc l) end' =
     (if Suc l \<le> end' \<and> end' \<le> n
      then scan res (\<lambda>s. fst (layer res n l s)) (Suc l) end'
      else (Infinity, - 1))"

text \<open>
  The least \<open>end\<close> with a finite \<^verbatim>\<open>D[end][l]\<close>: the loop over \<open>start\<close> stops at
  \<open>end - length\<close>, so the segment of layer \<open>l\<close> has at least \<open>max 3 l\<close> points.
\<close>

fun min_len :: "nat \<Rightarrow> nat" where
  "min_len 0 = 0"
| "min_len (Suc l) = min_len l + max 3 (Suc l)"

text \<open>The tables a call fills, from the residuals it sees.\<close>

definition tables_of ::
  "(real list \<Rightarrow> real list \<Rightarrow> poly1d) \<Rightarrow> nat \<Rightarrow> nat \<Rightarrow> real list \<Rightarrow> caches \<Rightarrow> dtable \<times> ptable" where
  "tables_of polyfit n k distances c = fill_tables (seen_residual polyfit distances c) n k"

text \<open>The path a call returns, without the caches it leaves.\<close>

definition segment_path ::
  "(real list \<Rightarrow> real list \<Rightarrow> poly1d) \<Rightarrow> nat \<Rightarrow> nat \<Rightarrow> real list \<Rightarrow> caches
     \<Rightarrow> error + int list" where
  "segment_path polyfit n k distances c = map_sum id fst (segment polyfit n k distances c)"

text \<open>
  Two calls in one process, the module-level caches kept between them: the path the
  second call returns, on \<open>distances\<close>, after a call on the signal \<open>earlier\<close>.
\<close>

definition second_call_path ::
  "(real list \<Rightarrow> real list \<Rightarrow> poly1d) \<Rightarrow> nat \<Rightarrow> nat \<Rightarrow> real list \<Rightarrow> real list \<Rightarrow> caches
     \<Rightarrow> error + int list" where
  "second_call_path polyfit n k earlier distances c =
     (case segment polyfit n k earlier c of
        Inl err \<Rightarrow> Inl err
      | Inr (path, c') \<Rightarrow> segment_path polyfit n k distances c')"

section \<open>The height estimator\<close>

text \<open>
  A point is a triple \<open>(x, y, z)\<close>, a row of the \<open>N \<times> 3\<close> array \<^verbatim>\<open>points\<close>.
\<close>

type_synonym point3 = "real \<times> real \<times> real"

definition x_of :: "real \<times> real \<times> 'z \<Rightarrow> real" where
  "x_of p = fst p"

definition y_of :: "real \<times> real \<times> 'z \<Rightarrow> real" where
  "y_of p = fst (snd p)"

definition z_of :: "real \<times> real \<times> 'z \<Rightarrow> 'z" where
  "z_of p = snd (snd p)"

text \<open>
  \<^verbatim>\<open>np.sum(np.abs(points[:, 2] - sample_z) < threshold)\<close>: the number of rows whose
  \<open>z\<close> is closer to \<open>sample_z\<close> than \<open>threshold\<close>.
\<close>

definition inlier_count :: "point3 list \<Rightarrow> real \<Rightarrow> real \<Rightarrow> nat" where
  "inlier_count points sample_z threshold =
     length (filter (\<lambda>p. \<bar>z_of p - sample_z\<bar> < threshold) points)"

text \<open>
  The source of randomness is a parameter: \<open>choice t\<close> is the index that
  \<^verbatim>\<open>np.random.choice(points.shape[0], 1, replace=False)\<close> draws in iteration \<open>t\<close>. numpy
  draws it below \<open>points.shape[0]\<close> and raises \<^verbatim>\<open>ValueError\<close> when there is no row to
  draw; an index that is not below the number of rows, which numpy never draws, takes the
  same branch.
\<close>

definition ransac_body ::
  "point3 list \<Rightarrow> real \<Rightarrow> (nat \<Rightarrow> nat) \<Rightarrow> nat \<Rightarrow> real option \<times> nat
     \<Rightarrow> error + (real option \<times> nat)" where
  "ransac_body points threshold choice t st =
     (case st of (best_z, best_inliers) \<Rightarrow>
        if choice t < length points then
          (let sample_z = z_of (points ! choice t);
               inliers = inlier_count points sample_z threshold
           in if inliers > best_inliers then Inr (Some sample_z, inliers)
              else Inr (best_z, best_inliers))
        else Inl ValueError)"

definition ransac_z_fit ::
  "point3 list \<Rightarrow> nat \<Rightarrow> real \<Rightarrow> (nat \<Rightarrow> nat) \<Rightarrow> error + (real option \<times> nat)" where
  "ransac_z_fit points iterations threshold choice =
     for_each (ransac_body points threshold choice) [0..<iterations] (None, 0)"

section \<open>The bounding box\<close>

text \<open>
  \<^verbatim>\<open>points[path]\<close>: numpy takes the rows at the indices of \<open>path\<close>, wrapping a negative
  index and raising \<^verbatim>\<open>IndexError\<close> outside the array.
\<close>

fun fancy_index :: "'a list \<Rightarrow> int list \<Rightarrow> error + 'a list" where
  "fancy_index xs [] = Inr []"
| "fancy_index xs (i # is) =
     (case np_index (length xs) i of
        Inl err \<Rightarrow> Inl err
      | Inr r \<Rightarrow>
          (case fancy_index xs is of
             Inl err \<Rightarrow> Inl err
           | Inr ys \<Rightarrow> Inr (xs ! r # ys)))"

definition avg :: "real \<Rightarrow> real \<Rightarrow> real" where
  "avg x y = (x + y) / 2"

text \<open>
  \<^verbatim>\<open>euc_dist\<close>, and the signal of \<open>bounding_box_3d\<close>: the squared distance of every point
  to the mean of the points in the plane.
\<close>

definition euc_dist :: "real \<times> real \<Rightarrow> real \<times> real \<Rightarrow> real" where
  "euc_dist a b = (fst a - fst b) ^ 2 + (snd a - snd b) ^ 2"

text \<open>
  A Python slice \<^verbatim>\<open>xs[start:stop]\<close> with any integers: a negative bound counts from the
  end, and both are clipped to the list.
\<close>

definition py_slice :: "int \<Rightarrow> int \<Rightarrow> 'a list \<Rightarrow> 'a list" where
  "py_slice start stop xs =
     (let len = int (length xs);
          lo = (if start < 0 then max (start + len) 0 else min start len);
          hi = (if stop < 0 then max (stop + len) 0 else min stop len)
      in drop (nat lo) (take (nat hi) xs))"

text \<open>
  \<open>plot_parab\<close> calls \<open>generate_parab\<close> with entries of the path, which can be negative.
  The dictionary \<^verbatim>\<open>parabola_cache\<close> then has two parts: the keys of natural numbers, which
  are the record \<open>caches\<close>, and the keys with a negative index, which only these calls
  make. For two natural numbers the call is \<open>generate_parab\<close> as above; otherwise the
  range and the slice are Python's for negative bounds.
\<close>

type_synonym process_caches = "caches \<times> ((int \<times> int) \<rightharpoonup> poly1d)"

definition generate_parab_any ::
  "(real list \<Rightarrow> real list \<Rightarrow> poly1d) \<Rightarrow> int \<Rightarrow> int \<Rightarrow> real list \<Rightarrow> process_caches
     \<Rightarrow> error + (poly1d \<times> process_caches)" where
  "generate_parab_any polyfit start end' distances st =
     (case st of (c, neg) \<Rightarrow>
        if 0 \<le> start \<and> 0 \<le> end' then
          (case generate_parab polyfit (nat start) (nat end') distances c of
             Inl err \<Rightarrow> Inl err
           | Inr (parab, c') \<Rightarrow> Inr (parab, (c', neg)))
        else
          (case neg (start, end') of
             Some parab \<Rightarrow> Inr (parab, (c, neg))
           | None \<Rightarrow>
               (let x = map real_of_int [start..end' - 1];
                    y = py_slice start end' distances
                in case np_polyfit polyfit x y of
                     Inl err \<Rightarrow> Inl err
                   | Inr parab \<Rightarrow> Inr (parab, (c, neg((start, end') \<mapsto> parab))))))"

definition plot_parab ::
  "(real list \<Rightarrow> real list \<Rightarrow> poly1d) \<Rightarrow> int \<Rightarrow> int \<Rightarrow> real list \<Rightarrow> process_caches
     \<Rightarrow> error + ((real list \<times> real list) \<times> process_caches)" where
  "plot_parab polyfit range_start range_end distances st =
     (case generate_parab_any polyfit range_start range_end distances st of
        Inl err \<Rightarrow> Inl err
      | Inr (parab, st') \<Rightarrow>
          (let x = map real_of_int [range_start..range_end]
           in Inr ((x, map (polyval parab) x), st')))"

text \<open>
  The calls of \<open>plot_parab\<close> in \<open>bounding_box_3d\<close> (lines 308 to 317), in their order:
  from \<open>0\<close> to the first entry of the path, between consecutive entries, and from the last
  entry to \<open>len(distances) - 1\<close>. What they return is only plotted.
\<close>

definition plot_ranges :: "int list \<Rightarrow> nat \<Rightarrow> (int \<times> int) list" where
  "plot_ranges path n = (0, hd path) # zip path (tl path) @ [(last path, int n - 1)]"

definition plot_segments ::
  "(real list \<Rightarrow> real list \<Rightarrow> poly1d) \<Rightarrow> int list \<Rightarrow> real list \<Rightarrow> process_caches
     \<Rightarrow> error + process_caches" where
  "plot_segments polyfit path distances st =
     (if path = [] then Inl IndexError
      else for_each
             (\<lambda>(a, b) st. case plot_parab polyfit a b distances st of
                             Inl err \<Rightarrow> Inl err
                           | Inr (xy, st') \<Rightarrow> Inr st')
             (plot_ranges path (length distances)) st)"

text \<open>
  \<^verbatim>\<open>np.median\<close> of a list that is not empty. (\<open>bounding_box_3d\<close> reaches it with at least
  one point: with none, \<^verbatim>\<open>points[path]\<close> has raised.)
\<close>

definition median :: "real list \<Rightarrow> real" where
  "median zs =
     (let s = sort zs; n = length zs
      in if odd n then s ! (n div 2) else (s ! (n div 2 - 1) + s ! (n div 2)) / 2)"

text \<open>
  The corners (lines 282 to 292). Of the rows sorted by \<open>x\<close> only the \<open>x\<close> is read, and of
  the rows sorted by \<open>y\<close> only the \<open>y\<close>, so the order \<^verbatim>\<open>np.argsort\<close> gives to equal keys
  does not show. Reading one of the rows 0 to 3 of fewer than four path points raises
  \<^verbatim>\<open>IndexError\<close>.
\<close>

definition rectangle ::
  "point3 list
     \<Rightarrow> error + ((real \<times> real) \<times> (real \<times> real) \<times> (real \<times> real) \<times> (real \<times> real))" where
  "rectangle path_points =
     (if length path_points < 4 then Inl IndexError
      else
        (let path_x = sort_key x_of path_points;
             path_y = sort_key y_of path_points;
             lower_left = (avg (x_of (path_x ! 0)) (x_of (path_x ! 1)),
                           avg (y_of (path_y ! 0)) (y_of (path_y ! 1)));
             lower_right = (avg (x_of (path_x ! 2)) (x_of (path_x ! 3)),
                            avg (y_of (path_y ! 0)) (y_of (path_y ! 1)));
             upper_right = (avg (x_of (path_x ! 2)) (x_of (path_x ! 3)),
                            avg (y_of (path_y ! 2)) (y_of (path_y ! 3)));
             upper_left = (avg (x_of (path_x ! 0)) (x_of (path_x ! 1)),
                           avg (y_of (path_y ! 2)) (y_of (path_y ! 3)))
         in Inr (lower_left, lower_right, upper_right, upper_left)))"

text \<open>The eight vertices (lines 326 to 335).\<close>

definition rectangle_3d ::
  "real \<times> real \<Rightarrow> real \<times> real \<Rightarrow> real \<times> real \<Rightarrow> real \<times> real \<Rightarrow> 'z \<Rightarrow> 'z
     \<Rightarrow> (real \<times> real \<times> 'z) list" where
  "rectangle_3d lower_left lower_right upper_right upper_left floor_z ceiling_z =
     [(fst lower_left, snd lower_left, floor_z),
      (fst lower_right, snd lower_right, floor_z),
      (fst upper_right, snd upper_right, floor_z),
      (fst upper_left, snd upper_left, floor_z),
      (fst lower_left, snd lower_left, ceiling_z),
      (fst lower_right, snd lower_right, ceiling_z),
      (fst upper_right, snd upper_right, ceiling_z),
      (fst upper_left, snd upper_left, ceiling_z)]"

text \<open>
  \<open>bounding_box_3d\<close> (lines 270 to 337), in the order of the source: the signal, the
  path of \<open>segment\<close> with \<open>k = 4\<close>, the points of the path, the corners, the calls of
  \<open>plot_parab\<close>, the two heights by \<open>ransac_z_fit\<close> with its defaults (100 iterations,
  threshold 0.5) on the points below and above the median \<open>z\<close>, and the vertices. Each of
  these steps can raise, and a later step is not reached then. The calls of matplotlib are
  left out; \<open>choice_floor\<close> and \<open>choice_ceiling\<close> are the draws of the two estimates.
\<close>

definition bounding_box_3d ::
  "(real list \<Rightarrow> real list \<Rightarrow> poly1d) \<Rightarrow> point3 list \<Rightarrow> (nat \<Rightarrow> nat) \<Rightarrow> (nat \<Rightarrow> nat)
     \<Rightarrow> process_caches \<Rightarrow> error + ((real \<times> real \<times> real option) list \<times> process_caches)" where
  "bounding_box_3d polyfit points choice_floor choice_ceiling st =
     (case st of (c, neg) \<Rightarrow>
        (let n = length points;
             k = 4;
             c_mean = (sum_list (map x_of points) / real n, sum_list (map y_of points) / real n);
             distances = map (\<lambda>p. euc_dist (x_of p, y_of p) c_mean) points
         in case segment polyfit n k distances c of
              Inl err \<Rightarrow> Inl err
            | Inr (path, c1) \<Rightarrow>
         (case fancy_index points path of
              Inl err \<Rightarrow> Inl err
            | Inr path_points \<Rightarrow>
         (case rectangle path_points of
              Inl err \<Rightarrow> Inl err
            | Inr (lower_left, lower_right, upper_right, upper_left) \<Rightarrow>
         (case plot_segments polyfit path distances (c1, neg) of
              Inl err \<Rightarrow> Inl err
            | Inr st2 \<Rightarrow>
         (case ransac_z_fit (filter (\<lambda>p. z_of p < median (map z_of points)) points)
                 100 (1 / 2) choice_floor of
              Inl err \<Rightarrow> Inl err
            | Inr (floor_z, floor_inliers) \<Rightarrow>
         (case ransac_z_fit (filter (\<lambda>p. z_of p > median (map z_of points)) points)
                 100 (1 / 2) choice_ceiling of
              Inl err \<Rightarrow> Inl err
            | Inr (ceiling_z, ceiling_inliers) \<Rightarrow>
                Inr (rectangle_3d lower_left lower_right upper_right upper_left
                       floor_z ceiling_z, st2))))))))"

text \<open>
  Seventeen points for a run of \<open>bounding_box_3d\<close> that returns: their mean in the plane
  is the origin, and the signal is ten times 1, three times 0, then 4, 1, 4, 13.
\<close>

definition sample_points :: "point3 list" where
  "sample_points =
     [(1, 0, 0), (- 1, 0, 0), (1, 0, 0), (- 1, 0, 0), (1, 0, 0), (- 1, 0, 0),
      (0, 1, 0), (0, - 1, 0), (0, 1, 1), (0, - 1, 3),
      (0, 0, 3), (0, 0, 3), (0, 0, 3),
      (- 2, 0, 3), (0, - 1, 3), (0, - 2, 3), (2, 3, 3)]"

definition sample_signal :: "real list" where
  "sample_signal = [1, 1, 1, 1, 1, 1, 1, 1, 1, 1, 0, 0, 0, 4, 1, 4, 13]"

section \<open>The loops compute the tables of the residuals they see\<close>

lemma cache_ok_refl: "cache_ok polyfit distances c0 c0"
  by (auto simp: cache_ok_def seen_fit_def seen_residual_def split: option.splits)

lemma length_slice: "end' \<le> length xs \<Longrightarrow> length (slice start end' xs) = end' - start"
  by (simp add: slice_def)

lemma generate_parab_ok:
  assumes "cache_ok polyfit distances c0 c" "s < e" "e \<le> length distances"
  shows "\<exists>c1. generate_parab polyfit s e distances c = Inr (seen_fit polyfit distances c0 s e, c1)
           \<and> cache_ok polyfit distances c0 c1"
proof (cases "parabola_cache c (s, e)")
  case None
  from assms(1) None have n0: "parabola_cache c0 (s, e) = None"
    unfolding cache_ok_def by (metis option.simps(4))
  have fit: "np_polyfit polyfit (map real [s..<e]) (slice s e distances)
      = Inr (seen_fit polyfit distances c0 s e)"
    using assms(2,3) n0 by (simp add: np_polyfit_def length_slice seen_fit_def)
  have "cache_ok polyfit distances c0
          (c\<lparr>parabola_cache := (parabola_cache c)((s, e) \<mapsto> seen_fit polyfit distances c0 s e)\<rparr>)"
    using assms(1) unfolding cache_ok_def by (auto split: option.splits)
  then show ?thesis using None fit by (simp add: generate_parab_def)
next
  case (Some p)
  with assms(1) have "p = seen_fit polyfit distances c0 s e"
    unfolding cache_ok_def by (metis option.simps(5))
  then show ?thesis using Some assms(1) by (simp add: generate_parab_def)
qed

lemma MSE_ok:
  assumes "cache_ok polyfit distances c0 c" "e \<le> length distances"
  shows "\<exists>c2. MSE s e distances (seen_fit polyfit distances c0 s e) c
             = Inr (seen_residual polyfit distances c0 s e, c2)
           \<and> cache_ok polyfit distances c0 c2"
proof (cases "mse_cache c (s, e)")
  case None
  from assms(1) None have n0: "mse_cache c0 (s, e) = None"
    unfolding cache_ok_def by (metis option.simps(4))
  define d where "d = map (\<lambda>(y, p). y - p) (zip (slice s e distances)
          (map (polyval (seen_fit polyfit distances c0 s e)) (map real [s..<e])))"
  have sub: "broadcast_sub (slice s e distances)
        (map (polyval (seen_fit polyfit distances c0 s e)) (map real [s..<e])) = Inr d"
    using assms(2) by (simp add: broadcast_sub_def length_slice d_def)
  have res: "sum_list (map (\<lambda>t. t ^ 2) d) = seen_residual polyfit distances c0 s e"
    using n0 by (simp add: seen_residual_def d_def)
  have ok: "cache_ok polyfit distances c0
          (c\<lparr>mse_cache := (mse_cache c)((s, e) \<mapsto> seen_residual polyfit distances c0 s e)\<rparr>)"
    using assms(1) unfolding cache_ok_def by (auto split: option.splits)
  have "MSE s e distances (seen_fit polyfit distances c0 s e) c
      = Inr (seen_residual polyfit distances c0 s e,
          c\<lparr>mse_cache := (mse_cache c)((s, e) \<mapsto> seen_residual polyfit distances c0 s e)\<rparr>)"
    unfolding MSE_def Let_def using None sub res by simp
  with ok show ?thesis by blast
next
  case (Some v)
  with assms(1) have "v = seen_residual polyfit distances c0 s e"
    unfolding cache_ok_def by (metis option.simps(5))
  then show ?thesis using Some assms(1) by (simp add: MSE_def)
qed

lemma generate_parab_mse:
  "generate_parab polyfit s e distances c = Inr (p, c1) \<Longrightarrow> mse_cache c1 = mse_cache c"
  by (auto simp: generate_parab_def Let_def split: option.splits sum.splits)

lemma MSE_dom:
  "MSE s e distances p c = Inr (v, c2) \<Longrightarrow>
     dom (mse_cache c) \<subseteq> dom (mse_cache c2) \<and> (s, e) \<in> dom (mse_cache c2)"
  by (auto simp: MSE_def Let_def split: option.splits sum.splits)

lemma for_each_sim:
  assumes step: "\<And>x s c. x \<in> set xs \<Longrightarrow> I c \<Longrightarrow>
      \<exists>c'. body x (emb s c) = Inr (emb (f x s) c') \<and> I c'
         \<and> dom (mse_cache c) \<subseteq> dom (mse_cache c') \<and> K x \<subseteq> dom (mse_cache c')"
    and "I c"
  shows "\<exists>c'. for_each body xs (emb s c) = Inr (emb (fold f xs s) c') \<and> I c'
         \<and> dom (mse_cache c) \<subseteq> dom (mse_cache c') \<and> (\<Union>x\<in>set xs. K x) \<subseteq> dom (mse_cache c')"
  using assms
proof (induction xs arbitrary: s c)
  case Nil
  show ?case using Nil(2) by (intro exI[of _ c]) simp
next
  case (Cons x xs)
  have "x \<in> set (x # xs)" by simp
  from Cons.prems(1)[OF this Cons.prems(2), of s]
  obtain c1 where c1: "body x (emb s c) = Inr (emb (f x s) c1)" "I c1"
    "dom (mse_cache c) \<subseteq> dom (mse_cache c1)" "K x \<subseteq> dom (mse_cache c1)"
    by blast
  have "\<exists>c'. for_each body xs (emb (f x s) c1) = Inr (emb (fold f xs (f x s)) c') \<and> I c'
         \<and> dom (mse_cache c1) \<subseteq> dom (mse_cache c') \<and> (\<Union>x\<in>set xs. K x) \<subseteq> dom (mse_cache c')"
  proof (rule Cons.IH)
    fix y t d
    assume y: "y \<in> set xs" and d: "I d"
    from y have "y \<in> set (x # xs)" by simp
    from Cons.prems(1)[OF this d, of t]
    show "\<exists>c'. body y (emb t d) = Inr (emb (f y t) c') \<and> I c'
         \<and> dom (mse_cache d) \<subseteq> dom (mse_cache c') \<and> K y \<subseteq> dom (mse_cache c')" .
  qed (rule c1(2))
  then obtain c' where c': "for_each body xs (emb (f x s) c1) = Inr (emb (fold f xs (f x s)) c')"
    "I c'" "dom (mse_cache c1) \<subseteq> dom (mse_cache c')" "(\<Union>x\<in>set xs. K x) \<subseteq> dom (mse_cache c')"
    by blast
  have 1: "for_each body (x # xs) (emb s c) = Inr (emb (fold f (x # xs) s) c')"
    using c1(1) c'(1) by simp
  have 2: "dom (mse_cache c) \<subseteq> dom (mse_cache c')"
    using c1(3) c'(3) by (rule subset_trans)
  have "K x \<subseteq> dom (mse_cache c')"
    using c1(4) c'(3) by (rule subset_trans)
  then have 3: "(\<Union>y\<in>set (x # xs). K y) \<subseteq> dom (mse_cache c')"
    using c'(4) by simp
  from 1 c'(2) 2 3 show ?case by (intro exI[of _ c'] conjI)
qed

lemma start_body_ok:
  assumes ok: "cache_ok polyfit distances c0 c" and le: "e \<le> length distances"
  shows "\<exists>c'. start_body polyfit distances D len e s (case st of (md, mi) \<Rightarrow> (md, mi, c))
        = Inr (case scan_step (seen_residual polyfit distances c0) (\<lambda>s. D (s, len - 1)) e s st
                 of (md, mi) \<Rightarrow> (md, mi, c'))
      \<and> cache_ok polyfit distances c0 c'
      \<and> dom (mse_cache c) \<subseteq> dom (mse_cache c') \<and> start_keys e s \<subseteq> dom (mse_cache c')"
proof -
  obtain md mi where st: "st = (md, mi)" by (cases st)
  show ?thesis
  proof (cases "e - s < 3")
    case True
    have "start_body polyfit distances D len e s (md, mi, c) = Inr (md, mi, c)"
      using True by (simp add: start_body_def)
    moreover have "scan_step (seen_residual polyfit distances c0) (\<lambda>s. D (s, len - 1)) e s (md, mi)
        = (md, mi)"
      using True by (simp add: scan_step_def)
    moreover have "start_keys e s = {}" using True by (simp add: start_keys_def)
    ultimately show ?thesis unfolding st using ok by (intro exI[of _ c]) simp
  next
    case False
    then have lt: "s < e" by simp
    from generate_parab_ok[OF ok lt le] obtain c1 where
      c1: "generate_parab polyfit s e distances c = Inr (seen_fit polyfit distances c0 s e, c1)"
        "cache_ok polyfit distances c0 c1" by blast
    from MSE_ok[OF c1(2) le, of s] obtain c2 where
      c2: "MSE s e distances (seen_fit polyfit distances c0 s e) c1
             = Inr (seen_residual polyfit distances c0 s e, c2)"
        "cache_ok polyfit distances c0 c2" by blast
    have d: "dom (mse_cache c) \<subseteq> dom (mse_cache c2)" "(s, e) \<in> dom (mse_cache c2)"
      using MSE_dom[OF c2(1)] generate_parab_mse[OF c1(1)] by simp_all
    have keys: "start_keys e s = {(s, e)}" using False by (simp add: start_keys_def)
    have "start_body polyfit distances D len e s (md, mi, c)
          = Inr (case scan_step (seen_residual polyfit distances c0) (\<lambda>s. D (s, len - 1)) e s (md, mi)
                   of (md, mi) \<Rightarrow> (md, mi, c2))"
      using False c1(1) c2(1) by (simp add: start_body_def scan_step_def)
    then show ?thesis unfolding st keys using c2(2) d by (intro exI[of _ c2]) simp
  qed
qed

lemma end_body_ok:
  assumes ok: "cache_ok polyfit distances c0 c" and le: "e \<le> length distances"
  shows "\<exists>c'. end_body polyfit distances len e (case T of (D, P) \<Rightarrow> (D, P, c))
        = Inr (case fill_end (seen_residual polyfit distances c0) len e T
                 of (D, P) \<Rightarrow> (D, P, c'))
      \<and> cache_ok polyfit distances c0 c'
      \<and> dom (mse_cache c) \<subseteq> dom (mse_cache c') \<and> end_keys len e \<subseteq> dom (mse_cache c')"
proof -
  obtain D P where T: "T = (D, P)" by (cases T)
  have "\<exists>c'. for_each (start_body polyfit distances D len e) [0..<e - len + 1]
            (case (Infinity, - 1) of (md, mi) \<Rightarrow> (md, mi, c))
        = Inr (case fold (scan_step (seen_residual polyfit distances c0) (\<lambda>s. D (s, len - 1)) e)
                      [0..<e - len + 1] (Infinity, - 1)
                 of (md, mi) \<Rightarrow> (md, mi, c'))
      \<and> cache_ok polyfit distances c0 c'
      \<and> dom (mse_cache c) \<subseteq> dom (mse_cache c')
      \<and> (\<Union>s\<in>set [0..<e - len + 1]. start_keys e s) \<subseteq> dom (mse_cache c')"
  proof (rule for_each_sim[where I = "cache_ok polyfit distances c0"
          and emb = "\<lambda>st c. case st of (md, mi) \<Rightarrow> (md, mi, c)"])
    fix x st c
    assume "cache_ok polyfit distances c0 c"
    then show "\<exists>c'. start_body polyfit distances D len e x (case st of (md, mi) \<Rightarrow> (md, mi, c)) =
            Inr (case scan_step (seen_residual polyfit distances c0) (\<lambda>s. D (s, len - 1)) e x st of
                 (md, mi) \<Rightarrow> (md, mi, c')) \<and>
            cache_ok polyfit distances c0 c' \<and>
            dom (mse_cache c) \<subseteq> dom (mse_cache c') \<and> start_keys e x \<subseteq> dom (mse_cache c')"
      by (rule start_body_ok[OF _ le])
  qed (rule ok)
  then obtain c' where c': "for_each (start_body polyfit distances D len e) [0..<e - len + 1]
            (Infinity, - 1, c)
        = Inr (case scan (seen_residual polyfit distances c0) (\<lambda>s. D (s, len - 1)) len e
                 of (md, mi) \<Rightarrow> (md, mi, c'))"
      "cache_ok polyfit distances c0 c'" "dom (mse_cache c) \<subseteq> dom (mse_cache c')"
      "end_keys len e \<subseteq> dom (mse_cache c')"
    unfolding scan_def end_keys_def prod.case by blast
  obtain md mi where sc: "scan (seen_residual polyfit distances c0) (\<lambda>s. D (s, len - 1)) len e = (md, mi)"
    by (cases "scan (seen_residual polyfit distances c0) (\<lambda>s. D (s, len - 1)) len e")
  have "end_body polyfit distances len e (D, P, c)
        = Inr (case fill_end (seen_residual polyfit distances c0) len e (D, P)
                 of (D, P) \<Rightarrow> (D, P, c'))"
    unfolding end_body_def fill_end_def prod.case c'(1) sc by simp
  then show ?thesis using c'(2,3,4) unfolding T prod.case by blast
qed

lemma length_body_ok:
  assumes ok: "cache_ok polyfit distances c0 c" and le: "n \<le> length distances"
  shows "\<exists>c'. length_body polyfit distances n len (case T of (D, P) \<Rightarrow> (D, P, c))
        = Inr (case fill_layer (seen_residual polyfit distances c0) n len T
                 of (D, P) \<Rightarrow> (D, P, c'))
      \<and> cache_ok polyfit distances c0 c'
      \<and> dom (mse_cache c) \<subseteq> dom (mse_cache c') \<and> layer_keys n len \<subseteq> dom (mse_cache c')"
  unfolding length_body_def fill_layer_def layer_keys_def
proof (rule for_each_sim[where I = "cache_ok polyfit distances c0"
          and emb = "\<lambda>T c. case T of (D, P) \<Rightarrow> (D, P, c)"])
  fix x s c
  assume x: "x \<in> set [len..<n + 1]" and c: "cache_ok polyfit distances c0 c"
  from x le have "x \<le> length distances" by auto
  from end_body_ok[OF c this]
  show "\<exists>c'. end_body polyfit distances len x (case s of (D, P) \<Rightarrow> (D, P, c)) =
            Inr (case fill_end (seen_residual polyfit distances c0) len x s of
                 (D, P) \<Rightarrow> (D, P, c')) \<and>
            cache_ok polyfit distances c0 c' \<and>
            dom (mse_cache c) \<subseteq> dom (mse_cache c') \<and> end_keys len x \<subseteq> dom (mse_cache c')"
    by blast
qed (rule ok)

lemma segment_tables_ok:
  assumes ok: "cache_ok polyfit distances c0 c" and le: "n \<le> length distances"
  shows "\<exists>c'. segment_tables polyfit n k distances c
        = Inr (fst (fill_tables (seen_residual polyfit distances c0) n k),
               snd (fill_tables (seen_residual polyfit distances c0) n k), c')
      \<and> cache_ok polyfit distances c0 c'
      \<and> dom (mse_cache c) \<subseteq> dom (mse_cache c')
      \<and> (\<Union>len\<in>set [1..<k + 1]. layer_keys n len) \<subseteq> dom (mse_cache c')"
proof -
  have "\<exists>c'. for_each (length_body polyfit distances n) [1..<k + 1]
          (case (D_init, P_init) of (D, P) \<Rightarrow> (D, P, c))
        = Inr (case fold (fill_layer (seen_residual polyfit distances c0) n) [1..<k + 1]
                      (D_init, P_init)
                 of (D, P) \<Rightarrow> (D, P, c'))
      \<and> cache_ok polyfit distances c0 c'
      \<and> dom (mse_cache c) \<subseteq> dom (mse_cache c')
      \<and> (\<Union>len\<in>set [1..<k + 1]. layer_keys n len) \<subseteq> dom (mse_cache c')"
  proof (rule for_each_sim[where I = "cache_ok polyfit distances c0"
          and emb = "\<lambda>T c. case T of (D, P) \<Rightarrow> (D, P, c)"])
    fix x s c
    assume "cache_ok polyfit distances c0 c"
    then show "\<exists>c'. length_body polyfit distances n x (case s of (D, P) \<Rightarrow> (D, P, c)) =
            Inr (case fill_layer (seen_residual polyfit distances c0) n x s of
                 (D, P) \<Rightarrow> (D, P, c')) \<and>
            cache_ok polyfit distances c0 c' \<and>
            dom (mse_cache c) \<subseteq> dom (mse_cache c') \<and> layer_keys n x \<subseteq> dom (mse_cache c')"
      by (rule length_body_ok[OF _ le])
  qed (rule ok)
  then show ?thesis
    unfolding segment_tables_def fill_tables_def
    by (simp only: case_prod_beta fst_conv snd_conv)
qed

section \<open>The scan over the starts\<close>

lemma cost_less_iff: "cost_less a b \<longleftrightarrow> a < b"
  by (simp add: less_cost_def)

lemma cost_le_Infinity: "a \<le> Infinity"
  by (cases a) (auto simp: less_eq_cost_def)

lemma cost_less_Infinity: "a < Infinity \<longleftrightarrow> a \<noteq> Infinity"
  by (cases a) (auto simp: less_cost_def)

lemma cost_add_Infinity_iff: "cost_add a (Finite r) = Infinity \<longleftrightarrow> a = Infinity"
  by (cases a) auto

lemma scan_step_inv:
  assumes "scan_inv res prev e m st"
  shows "scan_inv res prev e (Suc m) (scan_step res prev e m st)"
proof (cases "e - m < 3")
  case True
  then have "scan_step res prev e m st = st"
    by (cases st) (simp add: scan_step_def)
  moreover have "scan_inv res prev e (Suc m) st"
    using assms True unfolding scan_inv_def
    by (metis less_Suc_eq not_less)
  ultimately show ?thesis by simp
next
  case valid: False
  obtain md mi where st: "st = (md, mi)" by (cases st)
  show ?thesis
  proof (cases "candidate res prev e m < md")
    case True
    then have step: "scan_step res prev e m st = (candidate res prev e m, int m)"
      using valid by (simp add: st scan_step_def candidate_def cost_less_iff)
    from True have fin: "prev m \<noteq> Infinity"
      using cost_le_Infinity[of md] by (auto simp: candidate_def)
    have below: "\<forall>t<m. 3 \<le> e - t \<longrightarrow> candidate res prev e m < candidate res prev e t"
    proof (intro allI impI)
      fix t assume t: "t < m" "3 \<le> e - t"
      from assms[unfolded scan_inv_def st] show "candidate res prev e m < candidate res prev e t"
      proof (elim disjE conjE exE)
        assume "\<forall>s<m. 3 \<le> e - s \<longrightarrow> prev s = Infinity"
        with t have "candidate res prev e t = Infinity" by (simp add: candidate_def)
        moreover from fin have "candidate res prev e m \<noteq> Infinity"
          by (simp add: candidate_def cost_add_Infinity_iff)
        ultimately show ?thesis by (simp add: cost_less_Infinity)
      next
        fix s assume "(md, mi) = (candidate res prev e s, int s)"
          "\<forall>t<m. 3 \<le> e - t \<longrightarrow> candidate res prev e s \<le> candidate res prev e t"
        with t True show ?thesis by (metis less_le_trans prod.inject)
      qed
    qed
    have "scan_inv res prev e (Suc m) (candidate res prev e m, int m)"
      unfolding scan_inv_def
    proof (intro disjI2 exI[of _ m] conjI allI impI)
      fix t assume "t < Suc m" "3 \<le> e - t"
      with below show "candidate res prev e m \<le> candidate res prev e t"
        by (cases "t = m") (auto simp: less_Suc_eq intro: less_imp_le)
    qed (use valid fin below in auto)
    with step show ?thesis by simp
  next
    case False
    then have step: "scan_step res prev e m st = st"
      using valid by (simp add: st scan_step_def candidate_def cost_less_iff)
    from assms[unfolded scan_inv_def] have "scan_inv res prev e (Suc m) st"
    proof (elim disjE conjE exE)
      assume a: "st = (Infinity, - 1)" "\<forall>s<m. 3 \<le> e - s \<longrightarrow> prev s = Infinity"
      with False st have "candidate res prev e m = Infinity"
        by (simp add: cost_less_Infinity)
      then have "prev m = Infinity" by (simp add: candidate_def cost_add_Infinity_iff)
      with a show ?thesis unfolding scan_inv_def by (auto simp: less_Suc_eq)
    next
      fix s assume a: "s < m" "st = (candidate res prev e s, int s)" "3 \<le> e - s"
        "prev s \<noteq> Infinity"
        "\<forall>t<m. 3 \<le> e - t \<longrightarrow> candidate res prev e s \<le> candidate res prev e t"
        "\<forall>t<s. 3 \<le> e - t \<longrightarrow> candidate res prev e s < candidate res prev e t"
      from False a(2) st have "candidate res prev e s \<le> candidate res prev e m" by simp
      with a show ?thesis unfolding scan_inv_def
        by (intro disjI2 exI[of _ s]) (auto simp: less_Suc_eq)
    qed
    with step show ?thesis by simp
  qed
qed

lemma scan_fold_inv:
  "scan_inv res prev e m (fold (scan_step res prev e) [0..<m] (Infinity, - 1))"
proof (induction m)
  case 0
  show ?case by (simp add: scan_inv_def)
next
  case (Suc m)
  then show ?case using scan_step_inv[OF Suc] by simp
qed

lemma scan_inv_scan: "scan_inv res prev e (e - len + 1) (scan res prev len e)"
  unfolding scan_def by (rule scan_fold_inv)

section \<open>The tables\<close>

lemma fill_end_fold:
  assumes "1 \<le> len"
  shows "fold (fill_end res len) xs (D, P) =
    ((\<lambda>(e, l). if l = len \<and> e \<in> set xs then fst (scan res (\<lambda>s. D (s, len - 1)) len e) else D (e, l)),
     (\<lambda>(e, l). if l = len \<and> e \<in> set xs then snd (scan res (\<lambda>s. D (s, len - 1)) len e) else P (e, l)))"
proof (induction xs arbitrary: D P)
  case Nil
  show ?case by simp
next
  case (Cons x xs)
  define D1 where "D1 = D((x, len) := fst (scan res (\<lambda>s. D (s, len - 1)) len x))"
  define P1 where "P1 = P((x, len) := snd (scan res (\<lambda>s. D (s, len - 1)) len x))"
  have "len - 1 \<noteq> len" using assms by simp
  then have row: "(\<lambda>s. D1 (s, len - 1)) = (\<lambda>s. D (s, len - 1))"
    by (simp add: D1_def fun_eq_iff)
  have "fold (fill_end res len) (x # xs) (D, P) = fold (fill_end res len) xs (D1, P1)"
    by (simp add: fill_end_def D1_def P1_def)
  also have "\<dots> =
    ((\<lambda>(e, l). if l = len \<and> e \<in> set xs then fst (scan res (\<lambda>s. D1 (s, len - 1)) len e) else D1 (e, l)),
     (\<lambda>(e, l). if l = len \<and> e \<in> set xs then snd (scan res (\<lambda>s. D1 (s, len - 1)) len e) else P1 (e, l)))"
    by (rule Cons.IH)
  also have "\<dots> =
    ((\<lambda>(e, l). if l = len \<and> e \<in> set (x # xs) then fst (scan res (\<lambda>s. D (s, len - 1)) len e) else D (e, l)),
     (\<lambda>(e, l). if l = len \<and> e \<in> set (x # xs) then snd (scan res (\<lambda>s. D (s, len - 1)) len e) else P (e, l)))"
    unfolding row by (auto simp: D1_def P1_def fun_eq_iff)
  finally show ?case .
qed

lemma fill_tables_layer:
  "fill_tables res n k =
     ((\<lambda>(e, l). if l \<le> k then fst (layer res n l e) else Infinity),
      (\<lambda>(e, l). if l \<le> k then snd (layer res n l e) else - 1))"
proof (induction k)
  case 0
  show ?case
    by (auto simp: fill_tables_def D_init_def P_init_def fun_eq_iff)
next
  case (Suc k)
  have "fill_tables res n (Suc k) = fill_layer res n (Suc k) (fill_tables res n k)"
    by (simp add: fill_tables_def)
  also have "\<dots> = fold (fill_end res (Suc k)) [Suc k..<n + 1]
     ((\<lambda>(e, l). if l \<le> k then fst (layer res n l e) else Infinity),
      (\<lambda>(e, l). if l \<le> k then snd (layer res n l e) else - 1))"
    unfolding Suc.IH fill_layer_def ..
  also have "\<dots> =
     ((\<lambda>(e, l). if l \<le> Suc k then fst (layer res n l e) else Infinity),
      (\<lambda>(e, l). if l \<le> Suc k then snd (layer res n l e) else - 1))"
    by (subst fill_end_fold) (auto simp: fun_eq_iff le_Suc_eq)
  finally show ?case .
qed

lemma layer_cases:
  "layer res n l e = (Infinity, - 1) \<and> (l = 0 \<longrightarrow> e \<noteq> 0) \<or>
   (l = 0 \<and> e = 0 \<and> layer res n l e = (Finite 0, - 1)) \<or>
   (\<exists>l' s. l = Suc l' \<and> l \<le> e \<and> e \<le> n \<and> s + l \<le> e \<and> s + 3 \<le> e \<and>
      layer res n l e = (candidate res (\<lambda>s. fst (layer res n l' s)) e s, int s) \<and>
      fst (layer res n l' s) \<noteq> Infinity)"
proof (cases l)
  case 0
  then show ?thesis by simp
next
  case (Suc l')
  show ?thesis
  proof (cases "Suc l' \<le> e \<and> e \<le> n")
    case False
    then show ?thesis using Suc by auto
  next
    case True
    from scan_inv_scan[of res "\<lambda>s. fst (layer res n l' s)" e "Suc l'"]
    show ?thesis unfolding scan_inv_def
    proof (elim disjE conjE exE)
      assume "scan res (\<lambda>s. fst (layer res n l' s)) (Suc l') e = (Infinity, - 1)"
      then show ?thesis using Suc True by simp
    next
      fix s assume a: "s < e - Suc l' + 1"
        "scan res (\<lambda>s. fst (layer res n l' s)) (Suc l') e
           = (candidate res (\<lambda>s. fst (layer res n l' s)) e s, int s)"
        "3 \<le> e - s" "fst (layer res n l' s) \<noteq> Infinity"
      have "s + Suc l' \<le> e" "s + 3 \<le> e" using a(1,3) True by auto
      then show ?thesis using Suc True a(2,4) by auto
    qed
  qed
qed

lemma min_len_ge: "3 * l \<le> min_len l" "l \<le> min_len l"
  by (induction l) auto

lemma min_len_small: "l \<le> 3 \<Longrightarrow> min_len l = 3 * l"
  by (induction l) auto

lemma min_len_large: "4 \<le> l \<Longrightarrow> 3 * l < min_len l"
proof (induction l)
  case 0
  then show ?case by simp
next
  case (Suc l)
  show ?case
  proof (cases "l = 3")
    case True
    then show ?thesis by (simp add: min_len_small numeral_3_eq_3)
  next
    case False
    with Suc show ?thesis by auto
  qed
qed

lemma min_len_mono: "min_len l < min_len (Suc l)"
  by simp

lemma layer_finite_iff:
  "fst (layer res n l e) \<noteq> Infinity \<longleftrightarrow> (if l = 0 then e = 0 else min_len l \<le> e \<and> e \<le> n)"
proof (induction l arbitrary: e)
  case 0
  show ?case by simp
next
  case (Suc l)
  show ?case
  proof (cases "Suc l \<le> e \<and> e \<le> n")
    case False
    then have "fst (layer res n (Suc l) e) = Infinity" by auto
    moreover have "\<not> (min_len (Suc l) \<le> e \<and> e \<le> n)"
      using False min_len_ge(2)[of "Suc l"] by auto
    ultimately show ?thesis by simp
  next
    case True
    let ?prev = "\<lambda>s. fst (layer res n l s)"
    have fin: "fst (scan res ?prev (Suc l) e) \<noteq> Infinity \<longleftrightarrow>
        (\<exists>s<e - Suc l + 1. 3 \<le> e - s \<and> ?prev s \<noteq> Infinity)"
      using scan_inv_scan[of res ?prev e "Suc l"] unfolding scan_inv_def
      by (auto simp: candidate_def cost_add_Infinity_iff)
    have "(\<exists>s<e - Suc l + 1. 3 \<le> e - s \<and> ?prev s \<noteq> Infinity) \<longleftrightarrow> min_len (Suc l) \<le> e"
    proof (cases "l = 0")
      case l0: True
      have "(\<exists>s<e - Suc l + 1. 3 \<le> e - s \<and> ?prev s \<noteq> Infinity) \<longleftrightarrow> 3 \<le> e"
        unfolding Suc.IH using l0 True by auto
      then show ?thesis using l0 by simp
    next
      case l1: False
      have "\<And>s. (s < e - Suc l + 1 \<and> 3 \<le> e - s \<and> ?prev s \<noteq> Infinity)
          \<longleftrightarrow> (s + Suc l \<le> e \<and> s + 3 \<le> e \<and> min_len l \<le> s \<and> s \<le> n)"
        unfolding Suc.IH using l1 True by auto
      then have "(\<exists>s<e - Suc l + 1. 3 \<le> e - s \<and> ?prev s \<noteq> Infinity)
          \<longleftrightarrow> (\<exists>s. s + Suc l \<le> e \<and> s + 3 \<le> e \<and> min_len l \<le> s \<and> s \<le> n)"
        by blast
      also have "\<dots> \<longleftrightarrow> min_len l + max 3 (Suc l) \<le> e"
      proof
        assume "\<exists>s. s + Suc l \<le> e \<and> s + 3 \<le> e \<and> min_len l \<le> s \<and> s \<le> n"
        then show "min_len l + max 3 (Suc l) \<le> e" by auto
      next
        assume "min_len l + max 3 (Suc l) \<le> e"
        then have "min_len l + Suc l \<le> e \<and> min_len l + 3 \<le> e \<and> min_len l \<le> min_len l
            \<and> min_len l \<le> n"
          using True by auto
        then show "\<exists>s. s + Suc l \<le> e \<and> s + 3 \<le> e \<and> min_len l \<le> s \<and> s \<le> n" by blast
      qed
      finally show ?thesis by simp
    qed
    with fin True show ?thesis by simp
  qed
qed

lemma layer_index_cases:
  "snd (layer res n l e) = - 1 \<and> (l \<noteq> 0 \<longrightarrow> fst (layer res n l e) = Infinity) \<or>
   (0 \<le> snd (layer res n l e) \<and> snd (layer res n l e) + 3 \<le> int e \<and>
      snd (layer res n l e) + int l \<le> int e \<and> e \<le> n \<and> fst (layer res n l e) \<noteq> Infinity)"
  using layer_cases[of res n l e]
  by (auto simp: candidate_def cost_add_Infinity_iff)

section \<open>The reconstruction\<close>

lemma np_index_ok:
  assumes "- 1 \<le> i" "i \<le> int n"
  shows "\<exists>r\<le>n. np_index (n + 1) i = Inr r"
proof (cases "0 \<le> i")
  case True
  with assms show ?thesis by (intro exI[of _ "nat i"]) (simp add: np_index_def)
next
  case False
  with assms have "i = - 1" by simp
  then show ?thesis by (intro exI[of _ n]) (simp add: np_index_def)
qed

lemma walk_ok:
  assumes P: "\<And>e l. - 1 \<le> P (e, l) \<and> P (e, l) \<le> int n"
    and cur: "- 1 \<le> current" "current \<le> int n"
  shows "\<exists>ys. walk P n ls current path = Inr (path @ ys) \<and> length ys = length ls \<and>
           (ls \<noteq> [] \<longrightarrow> hd ys = current - 1) \<and>
           (\<forall>y\<in>set ys. y = current - 1 \<or> (\<exists>r l. r \<le> n \<and> l \<in> set ls \<and> y = P (r, l) - 1))"
  using cur
proof (induction ls arbitrary: current path)
  case Nil
  show ?case by simp
next
  case (Cons l ls)
  from np_index_ok[OF Cons.prems] obtain r where r: "r \<le> n" "np_index (n + 1) current = Inr r"
    by blast
  have "- 1 \<le> P (r, l)" "P (r, l) \<le> int n" using P by auto
  from Cons.IH[OF this, of "path @ [current - 1]"] obtain ys where
    ys: "walk P n ls (P (r, l)) (path @ [current - 1]) = Inr ((path @ [current - 1]) @ ys)"
      "length ys = length ls"
      "\<forall>y\<in>set ys. y = P (r, l) - 1 \<or> (\<exists>r' l'. r' \<le> n \<and> l' \<in> set ls \<and> y = P (r', l') - 1)"
    by blast
  have 1: "walk P n (l # ls) current path = Inr (path @ (current - 1) # ys)"
    using r(2) ys(1) by simp
  have 2: "\<forall>y\<in>set ((current - 1) # ys).
      y = current - 1 \<or> (\<exists>r' l'. r' \<le> n \<and> l' \<in> set (l # ls) \<and> y = P (r', l') - 1)"
  proof
    fix y assume "y \<in> set ((current - 1) # ys)"
    then consider "y = current - 1" | "y = P (r, l) - 1"
      | r' l' where "r' \<le> n" "l' \<in> set ls" "y = P (r', l') - 1"
      using ys(3) by auto
    then show "y = current - 1 \<or> (\<exists>r' l'. r' \<le> n \<and> l' \<in> set (l # ls) \<and> y = P (r', l') - 1)"
    proof cases
      case 1
      then show ?thesis by simp
    next
      case 2
      then have "\<exists>r' l'. r' \<le> n \<and> l' \<in> set (l # ls) \<and> y = P (r', l') - 1"
        using r(1) by (intro exI[of _ r] exI[of _ l]) simp
      then show ?thesis by simp
    next
      case 3
      then have "\<exists>r'' l''. r'' \<le> n \<and> l'' \<in> set (l # ls) \<and> y = P (r'', l'') - 1"
        by (intro exI[of _ r'] exI[of _ l']) simp
      then show ?thesis by simp
    qed
  qed
  from 1 2 ys(2) show ?case by (intro exI[of _ "(current - 1) # ys"]) simp
qed

lemma tables_of_D:
  "fst (tables_of polyfit n k distances c) (e, l)
     = (if l \<le> k then fst (layer (seen_residual polyfit distances c) n l e) else Infinity)"
  by (simp add: tables_of_def fill_tables_layer)

lemma tables_of_P:
  "snd (tables_of polyfit n k distances c) (e, l)
     = (if l \<le> k then snd (layer (seen_residual polyfit distances c) n l e) else - 1)"
  by (simp add: tables_of_def fill_tables_layer)

lemma tables_of_P_range:
  "snd (tables_of polyfit n k distances c) (e, l) = - 1 \<or>
   (0 \<le> snd (tables_of polyfit n k distances c) (e, l) \<and>
    snd (tables_of polyfit n k distances c) (e, l) + 3 \<le> int n)"
  using layer_index_cases[of "seen_residual polyfit distances c" n l e]
  by (auto simp: tables_of_P)

lemma segment_run:
  assumes le: "n \<le> length distances"
  shows "\<exists>c' path. segment_tables polyfit n k distances c
             = Inr (fst (tables_of polyfit n k distances c),
                    snd (tables_of polyfit n k distances c), c') \<and>
           segment polyfit n k distances c = Inr (path, c') \<and>
           cache_ok polyfit distances c c' \<and>
           (1 \<le> k \<longrightarrow> (\<forall>s e. s + 3 \<le> e \<and> e \<le> n \<longrightarrow> (s, e) \<in> dom (mse_cache c'))) \<and>
           length path = k \<and>
           (1 \<le> k \<longrightarrow> last path = snd (tables_of polyfit n k distances c) (n, k) - 1) \<and>
           (\<forall>x\<in>set path. \<exists>r l. r \<le> n \<and> 1 \<le> l \<and> l \<le> k \<and>
                x = snd (tables_of polyfit n k distances c) (r, l) - 1)"
proof -
  let ?D = "fst (tables_of polyfit n k distances c)"
  let ?P = "snd (tables_of polyfit n k distances c)"
  have "cache_ok polyfit distances c c" by (rule cache_ok_refl)
  from segment_tables_ok[OF this le, of k] obtain c' where
    t: "segment_tables polyfit n k distances c = Inr (?D, ?P, c')"
    and ok: "cache_ok polyfit distances c c'"
    and keys: "(\<Union>len\<in>set [1..<k + 1]. layer_keys n len) \<subseteq> dom (mse_cache c')"
    unfolding tables_of_def by blast
  have cov: "1 \<le> k \<longrightarrow> (\<forall>s e. s + 3 \<le> e \<and> e \<le> n \<longrightarrow> (s, e) \<in> dom (mse_cache c'))"
  proof (intro impI allI)
    fix s e assume k: "1 \<le> k" and se0: "s + 3 \<le> e \<and> e \<le> n"
    then have se: "s + 3 \<le> e" "e \<le> n" by simp_all
    then have "(s, e) \<in> start_keys e s" by (auto simp: start_keys_def)
    moreover have "s \<in> set [0..<e - 1 + 1]" using se by auto
    ultimately have "(s, e) \<in> end_keys 1 e" unfolding end_keys_def by blast
    moreover have "e \<in> set [1..<n + 1]" using se by auto
    ultimately have "(s, e) \<in> layer_keys n 1" unfolding layer_keys_def by blast
    moreover have "1 \<in> set [1..<k + 1]" using k by auto
    ultimately show "(s, e) \<in> dom (mse_cache c')" using keys by blast
  qed
  have rng: "- 1 \<le> ?P (e, l) \<and> ?P (e, l) \<le> int n" for e l
    using tables_of_P_range[of polyfit n k distances c e l] by linarith
  have "\<exists>ys. walk ?P n (rev [1..<k + 1]) (?P (n, k)) [] = Inr ([] @ ys) \<and>
           length ys = length (rev [1..<k + 1]) \<and>
           (rev [1..<k + 1] \<noteq> [] \<longrightarrow> hd ys = ?P (n, k) - 1) \<and>
           (\<forall>y\<in>set ys. y = ?P (n, k) - 1 \<or>
              (\<exists>r l. r \<le> n \<and> l \<in> set (rev [1..<k + 1]) \<and> y = ?P (r, l) - 1))"
  proof (rule walk_ok)
    show "- 1 \<le> ?P (e, l) \<and> ?P (e, l) \<le> int n" for e l by (rule rng)
    show "- 1 \<le> ?P (n, k)" "?P (n, k) \<le> int n" using rng[of n k] by simp_all
  qed
  then obtain ys where ys0: "walk ?P n (rev [1..<k + 1]) (?P (n, k)) [] = Inr ([] @ ys)"
    "length ys = length (rev [1..<k + 1])"
    "rev [1..<k + 1] \<noteq> [] \<longrightarrow> hd ys = ?P (n, k) - 1"
    "\<forall>y\<in>set ys. y = ?P (n, k) - 1 \<or>
       (\<exists>r l. r \<le> n \<and> l \<in> set (rev [1..<k + 1]) \<and> y = ?P (r, l) - 1)"
    by blast
  have ys: "walk ?P n (rev [1..<k + 1]) (?P (n, k)) [] = Inr ys" "length ys = k"
    using ys0(1,2) by simp_all
  have seg: "segment polyfit n k distances c = Inr (rev ys, c')"
    using t ys(1) by (simp add: segment_def)
  have last: "1 \<le> k \<longrightarrow> last (rev ys) = ?P (n, k) - 1"
  proof
    assume k: "1 \<le> k"
    then have "ys \<noteq> []" using ys(2) by auto
    moreover have "rev [1..<k + 1] \<noteq> []" using k by simp
    ultimately show "last (rev ys) = ?P (n, k) - 1"
      using ys0(3) by (simp add: last_rev)
  qed
  have sub: "\<forall>x\<in>set (rev ys). \<exists>r l. r \<le> n \<and> 1 \<le> l \<and> l \<le> k \<and> x = ?P (r, l) - 1"
  proof
    fix x assume "x \<in> set (rev ys)"
    then have x: "x \<in> set ys" by simp
    then have k: "1 \<le> k" using ys(2) by (cases k) auto
    from ys0(4) x consider "x = ?P (n, k) - 1"
      | r l where "r \<le> n" "l \<in> set (rev [1..<k + 1])" "x = ?P (r, l) - 1"
      by blast
    then show "\<exists>r l. r \<le> n \<and> 1 \<le> l \<and> l \<le> k \<and> x = ?P (r, l) - 1"
    proof cases
      case 1
      with k show ?thesis by (intro exI[of _ n] exI[of _ k]) simp
    next
      case 2
      from 2(2) have "1 \<le> l \<and> l \<le> k" by auto
      with 2(1,3) show ?thesis by (intro exI[of _ r] exI[of _ l]) simp
    qed
  qed
  from t seg ok cov ys(2) last sub show ?thesis
    by (intro exI[of _ c'] exI[of _ "rev ys"]) simp
qed

section \<open>Which entries are finite\<close>

lemma tables_of_D_finite_iff:
  assumes "1 \<le> l" "l \<le> k"
  shows "fst (tables_of polyfit n k distances c) (e, l) \<noteq> Infinity \<longleftrightarrow> min_len l \<le> e \<and> e \<le> n"
  using assms by (simp add: tables_of_D layer_finite_iff)

lemma tables_of_P_cases:
  assumes "1 \<le> l" "l \<le> k"
  shows "fst (tables_of polyfit n k distances c) (e, l) = Infinity \<and>
           snd (tables_of polyfit n k distances c) (e, l) = - 1 \<or>
         fst (tables_of polyfit n k distances c) (e, l) \<noteq> Infinity \<and>
           0 \<le> snd (tables_of polyfit n k distances c) (e, l) \<and>
           snd (tables_of polyfit n k distances c) (e, l) + 3 \<le> int e \<and>
           snd (tables_of polyfit n k distances c) (e, l) + int l \<le> int e \<and> e \<le> n"
  using assms layer_index_cases[of "seen_residual polyfit distances c" n l e]
  by (auto simp: tables_of_D tables_of_P)

lemma tables_of_P_first_layer:
  assumes "3 \<le> e" "e \<le> n" "1 \<le> k"
  shows "snd (tables_of polyfit n k distances c) (e, 1) = 0"
proof -
  let ?res = "seen_residual polyfit distances c"
  have fin: "fst (layer ?res n 1 e) \<noteq> Infinity"
    using assms by (simp only: layer_finite_iff) simp
  from layer_cases[of ?res n 1 e] fin
  obtain s where "layer ?res n 1 e = (candidate ?res (\<lambda>s. fst (layer ?res n 0 s)) e s, int s)"
    "fst (layer ?res n 0 s) \<noteq> Infinity"
    by auto
  then have "snd (layer ?res n 1 e) = 0" by (auto split: if_splits)
  then show ?thesis using assms by (simp add: tables_of_P)
qed

text \<open>
  What the loops store in an entry: the scan over the starts \<open>0\<close> to \<open>end - length\<close>,
  reading the column \<open>length - 1\<close>. It holds the least cost over these starts with at
  least three points and the first start of that cost (\<open>scan_inv\<close>). A start above
  \<open>end - length\<close> is not a candidate.
\<close>

lemma tables_of_recurrence:
  assumes "1 \<le> l" "l \<le> k" "l \<le> e" "e \<le> n"
  shows "scan_inv (seen_residual polyfit distances c)
           (\<lambda>s. fst (tables_of polyfit n k distances c) (s, l - 1)) e (e - l + 1)
           (fst (tables_of polyfit n k distances c) (e, l),
            snd (tables_of polyfit n k distances c) (e, l))"
proof -
  from assms(1) obtain l' where l: "l = Suc l'" by (cases l) auto
  let ?res = "seen_residual polyfit distances c"
  have prev: "(\<lambda>s. fst (tables_of polyfit n k distances c) (s, l - 1))
      = (\<lambda>s. fst (layer ?res n l' s))"
    using assms(2) l by (simp add: tables_of_D fun_eq_iff)
  have eq: "(fst (tables_of polyfit n k distances c) (e, l),
         snd (tables_of polyfit n k distances c) (e, l))
      = scan ?res (\<lambda>s. fst (layer ?res n l' s)) l e"
    using assms l by (simp add: tables_of_D tables_of_P)
  show ?thesis unfolding prev eq by (rule scan_inv_scan)
qed

lemma segment_infeasible:
  assumes "length distances = n" "1 \<le> k" "n < min_len k"
  shows "\<exists>path c'. segment polyfit n k distances c = Inr (path, c') \<and> length path = k \<and>
           last path = - 2 \<and> fst (tables_of polyfit n k distances c) (n, k) = Infinity"
proof -
  let ?D = "fst (tables_of polyfit n k distances c)"
  let ?P = "snd (tables_of polyfit n k distances c)"
  from segment_run[of n distances polyfit k c] assms(1,2)
  obtain c' path where r: "segment polyfit n k distances c = Inr (path, c')" "length path = k"
    "last path = ?P (n, k) - 1"
    by auto
  have "\<not> (?D (n, k) \<noteq> Infinity)"
    using assms(2,3) by (subst tables_of_D_finite_iff) simp_all
  then have D: "?D (n, k) = Infinity" by simp
  then have "?P (n, k) = - 1"
    using tables_of_P_cases[of k k polyfit n distances c n] assms(2) by simp
  with r D show ?thesis by simp
qed

section \<open>The claims on the partitioner\<close>

lemma segment_k1:
  assumes "length distances = n" "3 \<le> n"
  shows "\<exists>D P c'. segment_tables polyfit n 1 distances c = Inr (D, P, c') \<and> P (n, 1) = 0 \<and>
           segment polyfit n 1 distances c = Inr ([- 1], c')"
proof -
  let ?P = "snd (tables_of polyfit n 1 distances c)"
  from segment_run[of n distances polyfit 1 c] assms(1)
  obtain c' path where r: "segment_tables polyfit n 1 distances c
             = Inr (fst (tables_of polyfit n 1 distances c), ?P, c')"
    "segment polyfit n 1 distances c = Inr (path, c')" "length path = 1"
    "last path = ?P (n, 1) - 1"
    by auto
  have P: "?P (n, 1) = 0"
    by (rule tables_of_P_first_layer) (use assms(2) in simp_all)
  from r(3) obtain x where "path = [x]" by (cases path) auto
  with r(4) P have "path = [- 1]" by simp
  with r(1,2) P show ?thesis by blast
qed

text \<open>
  Claim C10. For every signal of length \<open>n \<ge> 3\<close> and \<open>k = 1\<close>, \<open>segment\<close> returns the
  one-element path \<open>[-1]\<close>: the only start with a finite predecessor cost is \<open>0\<close>, so
  \<^verbatim>\<open>P[n][1] = 0\<close>, and the shift by one makes the returned index negative, outside
  \<open>[0, n)\<close>. This holds from any state of the caches.
\<close>

theorem segment_single_segment:
  assumes "length distances = n" "3 \<le> n"
  shows "\<exists>D P c'. segment_tables polyfit n 1 distances c = Inr (D, P, c') \<and> P (n, 1) = 0 \<and>
           segment polyfit n 1 distances c = Inr ([- 1], c')"
  using assms by (rule segment_k1)

theorem segment_single_segment_witness:
  "length [1, 2, 3, 4 :: real] = 4 \<and> (3 :: nat) \<le> 4 \<and>
   (\<exists>D P c'. segment_tables lstsq_parabola 4 1 [1, 2, 3, 4] empty_caches = Inr (D, P, c') \<and>
      P (4, 1) = 0 \<and>
      segment lstsq_parabola 4 1 [1, 2, 3, 4] empty_caches = Inr ([- 1], c'))"
  using segment_single_segment[of "[1, 2, 3, 4]" 4 lstsq_parabola empty_caches] by simp

text \<open>
  Claim C1, at \<open>n = 12\<close> and \<open>k = 4\<close>. The claim gives \<^verbatim>\<open>D[12][4]\<close> as the least
  \<^verbatim>\<open>D[start][3] + residual(start, 12)\<close> over the starts with \<open>12 - start \<ge> 3\<close>. The
  start \<open>9\<close> is one of them and its cost is finite, but the loop over \<open>start\<close> stops at
  \<open>end - length = 8\<close>: the code leaves \<^verbatim>\<open>D[12][4]\<close> at infinity and \<^verbatim>\<open>P[12][4]\<close> at
  \<open>-1\<close>, for every signal of length \<open>12\<close>, while the cost through start \<open>9\<close> is
  strictly less.
\<close>

theorem segment_skips_late_starts:
  assumes "length distances = 12"
  shows "\<exists>D P c'. segment_tables polyfit 12 4 distances c = Inr (D, P, c') \<and>
           D (12, 4) = Infinity \<and> P (12, 4) = - 1 \<and>
           cost_less (cost_add (D (9, 3)) (Finite (seen_residual polyfit distances c 9 12)))
             (D (12, 4))"
proof -
  let ?D = "fst (tables_of polyfit 12 4 distances c)"
  let ?P = "snd (tables_of polyfit 12 4 distances c)"
  from segment_run[of 12 distances polyfit 4 c] assms
  obtain c' where r: "segment_tables polyfit 12 4 distances c = Inr (?D, ?P, c')"
    by auto
  have m4: "min_len 4 = 13" and m3: "min_len 3 = 9"
    by (simp_all add: numeral_eq_Suc)
  have "\<not> (?D (12, 4) \<noteq> Infinity)"
    by (subst tables_of_D_finite_iff) (simp_all add: m4)
  then have D4: "?D (12, 4) = Infinity" by simp
  have P4: "?P (12, 4) = - 1"
    using tables_of_P_cases[of 4 4 polyfit 12 distances c 12] D4 by simp
  have "?D (9, 3) \<noteq> Infinity"
    by (subst tables_of_D_finite_iff) (simp_all add: m3)
  then have "cost_less (cost_add (?D (9, 3)) (Finite (seen_residual polyfit distances c 9 12)))
      (?D (12, 4))"
    unfolding D4 by (cases "?D (9, 3)") simp_all
  with r D4 P4 show ?thesis by blast
qed

theorem segment_skips_late_starts_witness:
  "length (replicate 12 (0 :: real)) = 12 \<and>
   (\<exists>D P c'. segment_tables lstsq_parabola 12 4 (replicate 12 0) empty_caches = Inr (D, P, c') \<and>
           D (12, 4) = Infinity \<and> P (12, 4) = - 1 \<and>
           cost_less (cost_add (D (9, 3))
              (Finite (seen_residual lstsq_parabola (replicate 12 0) empty_caches 9 12)))
             (D (12, 4)))"
  using segment_skips_late_starts[of "replicate 12 0" lstsq_parabola empty_caches] by simp

text \<open>
  Claim C2, amended. \<open>segment\<close> has no error for an infeasible partition: for every
  signal of length \<open>n\<close> it returns a path of \<open>k\<close> entries. Whenever \<open>n < 3k\<close> the entry
  \<^verbatim>\<open>D[n][k]\<close> remains infinite, and whenever \<^verbatim>\<open>D[n][k]\<close> remains infinite (and
  \<open>k \<ge> 1\<close>) the call returns a path whose last entry is \<open>-2\<close>, that is
  \<^verbatim>\<open>P[n][k] - 1\<close> with \<^verbatim>\<open>P[n][k] = -1\<close>.
\<close>

theorem segment_never_infeasible:
  assumes "length distances = n"
  shows "\<exists>D P c' path. segment_tables polyfit n k distances c = Inr (D, P, c') \<and>
           segment polyfit n k distances c = Inr (path, c') \<and> length path = k \<and>
           (n < 3 * k \<longrightarrow> D (n, k) = Infinity) \<and>
           (D (n, k) = Infinity \<and> 1 \<le> k \<longrightarrow> last path = - 2)"
proof -
  let ?D = "fst (tables_of polyfit n k distances c)"
  let ?P = "snd (tables_of polyfit n k distances c)"
  from segment_run[of n distances polyfit k c] assms
  obtain c' path where r: "segment_tables polyfit n k distances c = Inr (?D, ?P, c')"
    "segment polyfit n k distances c = Inr (path, c')" "length path = k"
    "1 \<le> k \<longrightarrow> last path = ?P (n, k) - 1"
    by auto
  have a: "n < 3 * k \<longrightarrow> ?D (n, k) = Infinity"
  proof
    assume lt: "n < 3 * k"
    then have k: "1 \<le> k" by simp
    have "\<not> (min_len k \<le> n \<and> n \<le> n)" using lt min_len_ge(1)[of k] by simp
    then show "?D (n, k) = Infinity"
      using tables_of_D_finite_iff[OF k order_refl, of polyfit n distances c n] by simp
  qed
  have b: "?D (n, k) = Infinity \<and> 1 \<le> k \<longrightarrow> last path = - 2"
  proof
    assume h: "?D (n, k) = Infinity \<and> 1 \<le> k"
    then have "?P (n, k) = - 1"
      using tables_of_P_cases[of k k polyfit n distances c n] by simp
    with r(4) h show "last path = - 2" by simp
  qed
  from r(1,2,3) a b show ?thesis by blast
qed

theorem segment_never_infeasible_witness:
  "length [0, 0 :: real] = 2 \<and>
   (\<exists>D P c' path. segment_tables lstsq_parabola 2 1 [0, 0] empty_caches = Inr (D, P, c') \<and>
      segment lstsq_parabola 2 1 [0, 0] empty_caches = Inr (path, c') \<and> length path = 1 \<and>
      D (2, 1) = Infinity \<and> last path = - 2)"
  using segment_never_infeasible[of "[0, 0]" 2 lstsq_parabola 1 empty_caches] by simp blast

theorem segment_never_infeasible_counterexample:
  "segment_path lstsq_parabola 2 1 [0, 0] empty_caches = Inr [- 2]"
proof -
  have "(2 :: nat) < min_len 1" by simp
  from segment_infeasible[of "[0, 0]" 2 1 lstsq_parabola empty_caches, OF _ _ this]
  obtain path c' where p: "segment lstsq_parabola 2 1 [0, 0] empty_caches = Inr (path, c')"
    "length path = 1" "last path = - 2"
    by auto
  from p(2) obtain x where "path = [x]" by (cases path) auto
  with p(3) have "path = [- 2]" by simp
  with p(1) show ?thesis by (simp add: segment_path_def)
qed

lemma segment_walk:
  assumes le: "n \<le> length distances"
  shows "\<exists>c'. segment polyfit n k distances c =
           (case walk (snd (tables_of polyfit n k distances c)) n (rev [1..<k + 1])
                   (snd (tables_of polyfit n k distances c) (n, k)) [] of
              Inl err \<Rightarrow> Inl err
            | Inr path \<Rightarrow> Inr (rev path, c'))"
proof -
  have "cache_ok polyfit distances c c" by (rule cache_ok_refl)
  from segment_tables_ok[OF this le, of k] obtain c' where
    "segment_tables polyfit n k distances c
       = Inr (fst (tables_of polyfit n k distances c), snd (tables_of polyfit n k distances c), c')"
    unfolding tables_of_def by blast
  then show ?thesis by (intro exI[of _ c']) (simp add: segment_def)
qed

lemma segment_path_walk:
  assumes le: "n \<le> length distances"
  shows "segment_path polyfit n k distances c =
           (case walk (snd (tables_of polyfit n k distances c)) n (rev [1..<k + 1])
                   (snd (tables_of polyfit n k distances c) (n, k)) [] of
              Inl err \<Rightarrow> Inl err
            | Inr path \<Rightarrow> Inr (rev path))"
  using segment_walk[OF le, of polyfit k c]
  by (auto simp: segment_path_def split: sum.splits)

lemma tables_of_P_pred:
  assumes "1 \<le> l" "l \<le> k"
    and "fst (tables_of polyfit n k distances c) (e, Suc l) \<noteq> Infinity" "Suc l \<le> k"
  shows "int (min_len l) \<le> snd (tables_of polyfit n k distances c) (e, Suc l)"
proof -
  let ?res = "seen_residual polyfit distances c"
  from assms(3,4) have fin: "fst (layer ?res n (Suc l) e) \<noteq> Infinity"
    by (simp add: tables_of_D)
  from layer_cases[of ?res n "Suc l" e] fin
  obtain s where s: "layer ?res n (Suc l) e
      = (candidate ?res (\<lambda>s. fst (layer ?res n l s)) e s, int s)"
    "fst (layer ?res n l s) \<noteq> Infinity"
    by auto
  from s(2) assms(1) have "min_len l \<le> s" by (simp add: layer_finite_iff)
  moreover have "snd (tables_of polyfit n k distances c) (e, Suc l) = int s"
    using s(1) assms(4) by (simp add: tables_of_P)
  ultimately show ?thesis by simp
qed

text \<open>
  With \<open>n = 6\<close> and \<open>k = 2\<close> the table holds the partition into two segments of three
  points (\<^verbatim>\<open>P[6][2] = 3\<close>), and the walk then reads \<^verbatim>\<open>P[3][2]\<close>, an entry of the same
  layer, which is \<open>-1\<close>.
\<close>

lemma segment_two_of_six:
  assumes "length distances = 6"
  shows "\<exists>c'. segment polyfit 6 2 distances c = Inr ([- 2, 2], c')"
proof -
  let ?D = "fst (tables_of polyfit 6 2 distances c)"
  let ?P = "snd (tables_of polyfit 6 2 distances c)"
  have m1: "min_len 1 = 3" and m2: "min_len 2 = 6" by (simp_all add: numeral_eq_Suc)
  have two: "Suc 1 = (2 :: nat)" by simp
  have fin: "?D (6, 2) \<noteq> Infinity"
    by (subst tables_of_D_finite_iff) (simp_all add: m2)
  have "int (min_len 1) \<le> ?P (6, Suc 1)"
    by (rule tables_of_P_pred) (simp_all only: two fin, simp_all)
  then have "3 \<le> ?P (6, 2)" unfolding two m1 by simp
  moreover have "?P (6, 2) + 3 \<le> 6"
    using tables_of_P_cases[of 2 2 polyfit 6 distances c 6] fin by auto
  ultimately have P6: "?P (6, 2) = 3" by simp
  have "\<not> (?D (3, 2) \<noteq> Infinity)"
    by (subst tables_of_D_finite_iff) (simp_all add: m2)
  then have P3: "?P (3, 2) = - 1"
    using tables_of_P_cases[of 2 2 polyfit 6 distances c 3] by simp
  have up: "rev [1..<2 + 1] = [2, 1 :: nat]" by (simp add: upt_rec)
  have "walk ?P 6 (rev [1..<2 + 1]) (?P (6, 2)) [] = Inr [2, - 2]"
    unfolding up P6 by (simp add: np_index_def P3)
  with segment_walk[of 6 distances polyfit 2 c] assms show ?thesis by simp
qed

lemma segment_general:
  assumes "length distances = n" "1 \<le> k"
  shows "\<exists>D P c' path. segment_tables polyfit n k distances c = Inr (D, P, c') \<and>
           segment polyfit n k distances c = Inr (path, c') \<and>
           length path = k \<and> last path = P (n, k) - 1 \<and>
           (\<forall>x\<in>set path. \<exists>r l. r \<le> n \<and> 1 \<le> l \<and> l \<le> k \<and> x = P (r, l) - 1) \<and>
           (\<forall>x\<in>set path. x = - 2 \<or> - 1 \<le> x \<and> x + 4 \<le> int n) \<and>
           (D (n, k) \<noteq> Infinity \<longrightarrow> - 1 \<le> last path \<and> last path + 4 \<le> int n) \<and>
           (D (n, k) = Infinity \<longrightarrow> last path = - 2)"
proof -
  let ?D = "fst (tables_of polyfit n k distances c)"
  let ?P = "snd (tables_of polyfit n k distances c)"
  from segment_run[of n distances polyfit k c] assms
  obtain c' path where r: "segment_tables polyfit n k distances c = Inr (?D, ?P, c')"
    "segment polyfit n k distances c = Inr (path, c')" "length path = k"
    "last path = ?P (n, k) - 1"
    "\<forall>x\<in>set path. \<exists>r l. r \<le> n \<and> 1 \<le> l \<and> l \<le> k \<and> x = ?P (r, l) - 1"
    by auto
  have rng: "\<forall>x\<in>set path. x = - 2 \<or> - 1 \<le> x \<and> x + 4 \<le> int n"
  proof
    fix x assume "x \<in> set path"
    with r(5) obtain e l where "x = ?P (e, l) - 1" by blast
    with tables_of_P_range[of polyfit n k distances c e l]
    show "x = - 2 \<or> - 1 \<le> x \<and> x + 4 \<le> int n" by auto
  qed
  have fin: "?D (n, k) \<noteq> Infinity \<longrightarrow> - 1 \<le> last path \<and> last path + 4 \<le> int n"
    using tables_of_P_cases[of k k polyfit n distances c n] assms(2) r(4) by auto
  have inf: "?D (n, k) = Infinity \<longrightarrow> last path = - 2"
    using tables_of_P_cases[of k k polyfit n distances c n] assms(2) r(4) by auto
  from r rng fin inf show ?thesis by blast
qed

text \<open>
  Claim C4, at \<open>k \<ge> 4\<close>. For a signal of length \<open>n = 3k\<close> the partition into \<open>k\<close>
  segments of three points exists, but its last segment starts at \<open>n - 3\<close>, above
  \<open>end - length = n - k\<close>, where the loop over \<open>start\<close> never looks: \<^verbatim>\<open>D[n][k]\<close> stays
  infinite and the returned path ends with \<open>-2\<close>.
\<close>

theorem segment_three_k_fails:
  assumes "length distances = 3 * k" "4 \<le> k"
  shows "\<exists>D P c' path. segment_tables polyfit (3 * k) k distances c = Inr (D, P, c') \<and>
           D (3 * k, k) = Infinity \<and>
           segment polyfit (3 * k) k distances c = Inr (path, c') \<and>
           length path = k \<and> last path = - 2"
proof -
  from assms(2) have k: "1 \<le> k" by simp
  from segment_general[OF assms(1) k, of polyfit c]
  obtain D P c' path where r: "segment_tables polyfit (3 * k) k distances c = Inr (D, P, c')"
    "segment polyfit (3 * k) k distances c = Inr (path, c')" "length path = k"
    "D (3 * k, k) = Infinity \<longrightarrow> last path = - 2"
    by blast
  from segment_run[of "3 * k" distances polyfit k c] assms(1) r(1)
  have D: "D = fst (tables_of polyfit (3 * k) k distances c)" by auto
  have "\<not> (D (3 * k, k) \<noteq> Infinity)"
    unfolding D using min_len_large[OF assms(2)] k
    by (subst tables_of_D_finite_iff) simp_all
  with r show ?thesis by blast
qed

theorem segment_three_k_fails_witness:
  "length (replicate 12 (1 :: real)) = 3 * 4 \<and> (4 :: nat) \<le> 4 \<and>
   (\<exists>D P c' path. segment_tables lstsq_parabola (3 * 4) 4 (replicate 12 1) empty_caches
         = Inr (D, P, c') \<and>
      D (3 * 4, 4) = Infinity \<and>
      segment lstsq_parabola (3 * 4) 4 (replicate 12 1) empty_caches = Inr (path, c') \<and>
      length path = 4 \<and> last path = - 2)"
  using segment_three_k_fails[of "replicate 12 1" 4 lstsq_parabola empty_caches] by simp

section \<open>The path and the caches\<close>

text \<open>
  The path depends on the caches only through the entries for the keys
  \<open>(start, end)\<close> with \<open>start + 3 \<le> end \<le> n\<close>: two calls with the same arguments, from
  caches that agree on these keys, return the same path.
\<close>

lemma scan_cong:
  assumes "\<And>s. s + 3 \<le> e \<Longrightarrow> res s e = res' s e"
  shows "scan res prev len e = scan res' prev len e"
proof -
  have "scan_step res prev e = scan_step res' prev e"
    using assms by (auto simp: fun_eq_iff scan_step_def)
  then show ?thesis by (simp add: scan_def)
qed

lemma layer_cong:
  assumes "\<And>s e. s + 3 \<le> e \<Longrightarrow> e \<le> n \<Longrightarrow> res s e = res' s e"
  shows "layer res n l e = layer res' n l e"
proof (induction l arbitrary: e)
  case 0
  show ?case by simp
next
  case (Suc l)
  have prev: "(\<lambda>s. fst (layer res n l s)) = (\<lambda>s. fst (layer res' n l s))"
    using Suc by simp
  show ?case
  proof (cases "Suc l \<le> e \<and> e \<le> n")
    case True
    then have "scan res (\<lambda>s. fst (layer res' n l s)) (Suc l) e
        = scan res' (\<lambda>s. fst (layer res' n l s)) (Suc l) e"
      by (intro scan_cong assms) simp_all
    with True show ?thesis by (simp add: prev)
  next
    case False
    then show ?thesis by auto
  qed
qed

lemma tables_of_cong:
  assumes "\<And>s e. s + 3 \<le> e \<Longrightarrow> e \<le> n \<Longrightarrow>
      seen_residual polyfit d1 c1 s e = seen_residual polyfit d2 c2 s e"
  shows "tables_of polyfit n k d1 c1 = tables_of polyfit n k d2 c2"
proof -
  have eq: "layer (seen_residual polyfit d1 c1) n l e = layer (seen_residual polyfit d2 c2) n l e"
    for l e by (rule layer_cong) (rule assms)
  show ?thesis unfolding tables_of_def fill_tables_layer eq ..
qed

lemma seen_residual_cong:
  assumes "parabola_cache c1 (s, e) = parabola_cache c2 (s, e)"
    "mse_cache c1 (s, e) = mse_cache c2 (s, e)"
  shows "seen_residual polyfit distances c1 s e = seen_residual polyfit distances c2 s e"
proof -
  have fit: "seen_fit polyfit distances c1 s e = seen_fit polyfit distances c2 s e"
    using assms(1) by (simp add: seen_fit_def)
  show ?thesis unfolding seen_residual_def fit assms(2) ..
qed

lemma segment_path_cong:
  assumes "length distances = n"
    and "\<And>s e. s + 3 \<le> e \<Longrightarrow> e \<le> n \<Longrightarrow>
       parabola_cache c1 (s, e) = parabola_cache c2 (s, e) \<and>
       mse_cache c1 (s, e) = mse_cache c2 (s, e)"
  shows "segment_path polyfit n k distances c1 = segment_path polyfit n k distances c2"
proof -
  have "tables_of polyfit n k distances c1 = tables_of polyfit n k distances c2"
    by (rule tables_of_cong, rule seen_residual_cong) (use assms(2) in simp_all)
  then show ?thesis using assms(1) by (simp add: segment_path_walk)
qed

text \<open>
  What a call leaves in \<^verbatim>\<open>mse_cache\<close> decides every later call with the same \<open>n\<close>: the
  later call finds each residual it needs under its key and never looks at its own signal.
\<close>

lemma segment_reuses_cache:
  assumes "length earlier = n" "length distances = n" "1 \<le> k0"
    and "segment polyfit n k0 earlier c = Inr (path, c')"
  shows "segment_path polyfit n k distances c' = segment_path polyfit n k earlier c"
proof -
  from segment_run[of n earlier polyfit k0 c] assms(1,3,4)
  have ok: "cache_ok polyfit earlier c c'"
    and keys: "\<forall>s e. s + 3 \<le> e \<and> e \<le> n \<longrightarrow> (s, e) \<in> dom (mse_cache c')"
    by auto
  have "tables_of polyfit n k distances c' = tables_of polyfit n k earlier c"
  proof (rule tables_of_cong)
    fix s e assume "s + 3 \<le> e" "e \<le> n"
    with keys obtain v where v: "mse_cache c' (s, e) = Some v" by blast
    with ok have "v = seen_residual polyfit earlier c s e"
      unfolding cache_ok_def by (metis option.simps(5))
    with v show "seen_residual polyfit distances c' s e = seen_residual polyfit earlier c s e"
      by (simp add: seen_residual_def)
  qed
  then show ?thesis using assms(1,2) by (simp add: segment_path_walk)
qed

lemma second_call_path_eq:
  assumes "length earlier = n" "length distances = n" "1 \<le> k"
  shows "second_call_path polyfit n k earlier distances c = segment_path polyfit n k earlier c"
proof -
  from segment_run[of n earlier polyfit k c] assms(1)
  obtain c' path where s: "segment polyfit n k earlier c = Inr (path, c')" by auto
  from segment_reuses_cache[OF assms s]
  show ?thesis by (simp add: second_call_path_def s)
qed

lemma layer_7_2:
  "snd (layer res 7 2 7) = (if res 0 4 + res 4 7 < res 0 3 + res 3 7 then 4 else 3)"
  by (simp add: eval_nat_numeral scan_def scan_step_def upt_rec)

section \<open>Two calls in one process\<close>

lemma upt_lists:
  "[0..<3] = [0, 1, 2 :: nat]" "[0..<4] = [0, 1, 2, 3 :: nat]"
  "[4..<7] = [4, 5, 6 :: nat]" "[3..<7] = [3, 4, 5, 6 :: nat]"
  by (simp_all add: upt_rec)

lemmas residual_eval =
  seen_residual_def seen_fit_def empty_caches_def slice_def lstsq_parabola_def
  power_sum_def moment_sum_def det3_def polyval_def Let_def upt_lists power2_eq_square

lemma residuals_bump_late:
  "seen_residual lstsq_parabola [0, 0, 0, 0, 1, 0, 0] empty_caches 0 3 = 0"
  "seen_residual lstsq_parabola [0, 0, 0, 0, 1, 0, 0] empty_caches 0 4 = 0"
  "seen_residual lstsq_parabola [0, 0, 0, 0, 1, 0, 0] empty_caches 4 7 = 0"
  "seen_residual lstsq_parabola [0, 0, 0, 0, 1, 0, 0] empty_caches 3 7 = 9 / 20"
  by (simp_all add: residual_eval)

lemma residuals_bump_early:
  "seen_residual lstsq_parabola [0, 0, 1, 0, 0, 0, 0] empty_caches 0 3 = 0"
  "seen_residual lstsq_parabola [0, 0, 1, 0, 0, 0, 0] empty_caches 0 4 = 9 / 20"
  "seen_residual lstsq_parabola [0, 0, 1, 0, 0, 0, 0] empty_caches 4 7 = 0"
  "seen_residual lstsq_parabola [0, 0, 1, 0, 0, 0, 0] empty_caches 3 7 = 0"
  by (simp_all add: residual_eval)

lemma segment_path_7_2:
  assumes "length distances = 7"
  shows "segment_path polyfit 7 2 distances c
    = Inr [- 2, snd (tables_of polyfit 7 2 distances c) (7, 2) - 1]"
proof -
  let ?D = "fst (tables_of polyfit 7 2 distances c)"
  let ?P = "snd (tables_of polyfit 7 2 distances c)"
  have m1: "min_len 1 = 3" and m2: "min_len 2 = 6" by (simp_all add: numeral_eq_Suc)
  have two: "Suc 1 = (2 :: nat)" by simp
  have fin: "?D (7, 2) \<noteq> Infinity"
    by (subst tables_of_D_finite_iff) (simp_all add: m2)
  have "int (min_len 1) \<le> ?P (7, Suc 1)"
    by (rule tables_of_P_pred) (simp_all only: two fin, simp_all)
  then have lo: "3 \<le> ?P (7, 2)" unfolding two m1 by simp
  have hi: "?P (7, 2) + 3 \<le> 7"
    using tables_of_P_cases[of 2 2 polyfit 7 distances c 7] fin by auto
  have inf: "?P (e, 2) = - 1" if "e < 6" for e
  proof -
    have "\<not> (?D (e, 2) \<noteq> Infinity)"
      using that by (subst tables_of_D_finite_iff) (simp_all add: m2)
    then show ?thesis using tables_of_P_cases[of 2 2 polyfit 7 distances c e] by simp
  qed
  have up: "rev [1..<2 + 1] = [2, 1 :: nat]" by (simp add: upt_rec)
  from lo hi have idx: "np_index (7 + 1) (?P (7, 2)) = Inr (nat (?P (7, 2)))"
    by (simp add: np_index_def)
  from lo hi have "nat (?P (7, 2)) < 6" by simp
  then have nxt: "?P (nat (?P (7, 2)), 2) = - 1" by (rule inf)
  have idx2: "np_index (7 + 1) (- 1) = Inr 7" by (simp add: np_index_def)
  have "walk ?P 7 (rev [1..<2 + 1]) (?P (7, 2)) [] = Inr [?P (7, 2) - 1, - 2]"
    unfolding up by (simp only: walk.simps idx idx2 nxt sum.case) simp
  then show ?thesis using assms by (simp add: segment_path_walk)
qed

text \<open>
  Claim C5, two calls in one process. After \<open>segment(7, 2, [0,0,0,0,1,0,0])\<close> from empty
  caches, the call \<open>segment(7, 2, [0,0,1,0,0,0,0])\<close> finds every residual it needs in
  \<^verbatim>\<open>mse_cache\<close>, computed from the earlier signal, and returns \<open>[-2, 3]\<close>, the path of the
  earlier signal; the same call from empty caches returns \<open>[-2, 2]\<close>. The path depends
  on the calls made before.
\<close>

theorem segment_second_call_stale:
  "second_call_path lstsq_parabola 7 2 [0, 0, 0, 0, 1, 0, 0] [0, 0, 1, 0, 0, 0, 0] empty_caches
     = Inr [- 2, 3] \<and>
   segment_path lstsq_parabola 7 2 [0, 0, 1, 0, 0, 0, 0] empty_caches = Inr [- 2, 2]"
proof
  have "second_call_path lstsq_parabola 7 2 [0, 0, 0, 0, 1, 0, 0] [0, 0, 1, 0, 0, 0, 0] empty_caches
      = segment_path lstsq_parabola 7 2 [0, 0, 0, 0, 1, 0, 0] empty_caches"
    by (rule second_call_path_eq) simp_all
  also have "\<dots> = Inr [- 2, 3]"
    by (simp add: segment_path_7_2 tables_of_P layer_7_2 residuals_bump_late)
  finally show "second_call_path lstsq_parabola 7 2 [0, 0, 0, 0, 1, 0, 0] [0, 0, 1, 0, 0, 0, 0]
      empty_caches = Inr [- 2, 3]" .
  show "segment_path lstsq_parabola 7 2 [0, 0, 1, 0, 0, 0, 0] empty_caches = Inr [- 2, 2]"
    by (simp add: segment_path_7_2 tables_of_P layer_7_2 residuals_bump_early)
qed

section \<open>The walk over the table\<close>

text \<open>
  The reconstruction (lines 194 to 199): every entry but the last collected is read from
  \<^verbatim>\<open>P\<close> in the row that the entry collected before it names, in the layer of the loop
  index. In \<open>walk\<close> the list \<open>ls\<close> holds the loop indices.
\<close>

lemma walk_chain:
  assumes P: "\<And>e l. - 1 \<le> P (e, l) \<and> P (e, l) \<le> int n"
    and cur: "- 1 \<le> current" "current \<le> int n"
  shows "\<exists>ys. walk P n ls current path = Inr (path @ ys) \<and> length ys = length ls \<and>
           (ls \<noteq> [] \<longrightarrow> ys ! 0 = current - 1) \<and>
           (\<forall>m. m + 1 < length ls \<longrightarrow>
              (\<exists>r. np_index (n + 1) (ys ! m + 1) = Inr r \<and> ys ! (m + 1) = P (r, ls ! m) - 1))"
  using cur
proof (induction ls arbitrary: current path)
  case Nil
  show ?case by simp
next
  case (Cons l ls)
  from np_index_ok[OF Cons.prems] obtain r where r: "r \<le> n" "np_index (n + 1) current = Inr r"
    by blast
  have "- 1 \<le> P (r, l)" "P (r, l) \<le> int n" using P by auto
  from Cons.IH[OF this, of "path @ [current - 1]"] obtain ys where
    ys: "walk P n ls (P (r, l)) (path @ [current - 1]) = Inr ((path @ [current - 1]) @ ys)"
      "length ys = length ls"
      "ls \<noteq> [] \<longrightarrow> ys ! 0 = P (r, l) - 1"
      "\<forall>m. m + 1 < length ls \<longrightarrow>
         (\<exists>r. np_index (n + 1) (ys ! m + 1) = Inr r \<and> ys ! (m + 1) = P (r, ls ! m) - 1)"
    by blast
  let ?zs = "(current - 1) # ys"
  have 1: "walk P n (l # ls) current path = Inr (path @ ?zs)"
    using r(2) ys(1) by simp
  have 2: "\<forall>m. m + 1 < length (l # ls) \<longrightarrow>
      (\<exists>r. np_index (n + 1) (?zs ! m + 1) = Inr r \<and> ?zs ! (m + 1) = P (r, (l # ls) ! m) - 1)"
  proof (intro allI impI)
    fix m assume m: "m + 1 < length (l # ls)"
    show "\<exists>r. np_index (n + 1) (?zs ! m + 1) = Inr r \<and> ?zs ! (m + 1) = P (r, (l # ls) ! m) - 1"
    proof (cases m)
      case 0
      with m have "ls \<noteq> []" by auto
      with ys(3) have "ys ! 0 = P (r, l) - 1" by simp
      with r(2) 0 show ?thesis by (intro exI[of _ r]) simp
    next
      case (Suc m')
      with m have "m' + 1 < length ls" by simp
      with ys(4) obtain r' where "np_index (n + 1) (ys ! m' + 1) = Inr r'"
        "ys ! (m' + 1) = P (r', ls ! m') - 1" by blast
      with Suc show ?thesis by (intro exI[of _ r']) simp
    qed
  qed
  from 1 2 ys(2) show ?case by (intro exI[of _ ?zs]) simp
qed

lemma segment_chain:
  assumes le: "n \<le> length distances"
  shows "\<exists>c' path. segment polyfit n k distances c = Inr (path, c') \<and> length path = k \<and>
           (\<forall>j. j + 1 < k \<longrightarrow>
              (\<exists>r. np_index (n + 1) (path ! (j + 1) + 1) = Inr r \<and>
                   path ! j = snd (tables_of polyfit n k distances c) (r, j + 2) - 1))"
proof -
  let ?P = "snd (tables_of polyfit n k distances c)"
  let ?ls = "rev [1..<k + 1]"
  have rng: "- 1 \<le> ?P (e, l) \<and> ?P (e, l) \<le> int n" for e l
    using tables_of_P_range[of polyfit n k distances c e l] by linarith
  have "\<exists>ys. walk ?P n ?ls (?P (n, k)) [] = Inr ([] @ ys) \<and> length ys = length ?ls \<and>
           (?ls \<noteq> [] \<longrightarrow> ys ! 0 = ?P (n, k) - 1) \<and>
           (\<forall>m. m + 1 < length ?ls \<longrightarrow>
              (\<exists>r. np_index (n + 1) (ys ! m + 1) = Inr r \<and> ys ! (m + 1) = ?P (r, ?ls ! m) - 1))"
  proof (rule walk_chain)
    show "- 1 \<le> ?P (e, l) \<and> ?P (e, l) \<le> int n" for e l by (rule rng)
    show "- 1 \<le> ?P (n, k)" "?P (n, k) \<le> int n" using rng[of n k] by simp_all
  qed
  then obtain ys where ys: "walk ?P n ?ls (?P (n, k)) [] = Inr ([] @ ys)"
    "length ys = length ?ls"
    "\<forall>m. m + 1 < length ?ls \<longrightarrow>
       (\<exists>r. np_index (n + 1) (ys ! m + 1) = Inr r \<and> ys ! (m + 1) = ?P (r, ?ls ! m) - 1)"
    by blast
  have len: "length ys = k" using ys(2) by simp
  from segment_walk[OF le, of polyfit k c] obtain c' where
    seg: "segment polyfit n k distances c = Inr (rev ys, c')"
    using ys(1) by auto
  have chain: "\<forall>j. j + 1 < k \<longrightarrow>
      (\<exists>r. np_index (n + 1) (rev ys ! (j + 1) + 1) = Inr r \<and> rev ys ! j = ?P (r, j + 2) - 1)"
  proof (intro allI impI)
    fix j assume j: "j + 1 < k"
    define m where "m = k - 2 - j"
    have m: "m + 1 < length ?ls" "k - Suc (j + 1) = m" "k - Suc j = m + 1"
      using j by (simp_all add: m_def)
    from ys(3) m(1) obtain r where r: "np_index (n + 1) (ys ! m + 1) = Inr r"
      "ys ! (m + 1) = ?P (r, ?ls ! m) - 1" by blast
    have "?ls ! m = [1..<k + 1] ! (k - Suc m)"
      using m(1) by (simp add: rev_nth)
    also have "k - Suc m = j + 1" using j by (simp add: m_def)
    also have "[1..<k + 1] ! (j + 1) = 1 + (j + 1)" by (rule nth_upt) (use j in simp)
    finally have l: "?ls ! m = j + 2" by simp
    have "rev ys ! (j + 1) = ys ! m" "rev ys ! j = ys ! (m + 1)"
      using j len m(2,3) by (simp_all add: rev_nth)
    with r l show "\<exists>r. np_index (n + 1) (rev ys ! (j + 1) + 1) = Inr r \<and>
        rev ys ! j = ?P (r, j + 2) - 1"
      by (intro exI[of _ r]) simp
  qed
  from seg len chain show ?thesis by (intro exI[of _ c'] exI[of _ "rev ys"]) simp
qed

text \<open>
  Claim C3, amended. For every call of \<open>segment\<close> on a signal of length \<open>n\<close> with
  \<open>k \<ge> 1\<close>, the returned path has exactly \<open>k\<close> entries (not \<open>k - 1\<close>), obtained walking
  \<^verbatim>\<open>P\<close> backward from \<open>(n, k)\<close>: the last entry is \<^verbatim>\<open>P[n][k] - 1\<close>, and each earlier
  entry is an entry of \<^verbatim>\<open>P\<close>, in the row that the entry after it names (that entry plus
  one, as numpy indexes it) and a layer from \<open>1\<close> to \<open>k\<close>, decremented by one; the
  collected entries are reversed. For a feasible call (\<^verbatim>\<open>D[n][k]\<close> finite) the last entry
  lies between \<open>-1\<close> and \<open>n - 4\<close>. The entries need not be interior indices of the
  signal: with \<open>n = 3\<close> and \<open>k = 1\<close> the path is \<open>[-1]\<close>.
\<close>

theorem segment_path_shape:
  assumes "length distances = n" "1 \<le> k"
  shows "\<exists>D P c' path. segment_tables polyfit n k distances c = Inr (D, P, c') \<and>
           segment polyfit n k distances c = Inr (path, c') \<and>
           length path = k \<and> last path = P (n, k) - 1 \<and>
           (\<forall>j. j + 1 < k \<longrightarrow>
              (\<exists>r l. np_index (n + 1) (path ! (j + 1) + 1) = Inr r \<and> 1 \<le> l \<and> l \<le> k \<and>
                     path ! j = P (r, l) - 1)) \<and>
           (D (n, k) \<noteq> Infinity \<longrightarrow> - 1 \<le> last path \<and> last path + 4 \<le> int n)"
proof -
  let ?D = "fst (tables_of polyfit n k distances c)"
  let ?P = "snd (tables_of polyfit n k distances c)"
  from segment_run[of n distances polyfit k c] assms
  obtain c' path where r: "segment_tables polyfit n k distances c = Inr (?D, ?P, c')"
    "segment polyfit n k distances c = Inr (path, c')" "length path = k"
    "last path = ?P (n, k) - 1"
    by auto
  from segment_chain[of n distances polyfit k c] assms(1) r(2)
  have ch: "\<forall>j. j + 1 < k \<longrightarrow>
      (\<exists>r. np_index (n + 1) (path ! (j + 1) + 1) = Inr r \<and> path ! j = ?P (r, j + 2) - 1)"
    by auto
  have chain: "\<forall>j. j + 1 < k \<longrightarrow>
      (\<exists>r l. np_index (n + 1) (path ! (j + 1) + 1) = Inr r \<and> 1 \<le> l \<and> l \<le> k \<and>
             path ! j = ?P (r, l) - 1)"
  proof (intro allI impI)
    fix j assume j: "j + 1 < k"
    with ch obtain r where "np_index (n + 1) (path ! (j + 1) + 1) = Inr r"
      "path ! j = ?P (r, j + 2) - 1" by blast
    with j show "\<exists>r l. np_index (n + 1) (path ! (j + 1) + 1) = Inr r \<and> 1 \<le> l \<and> l \<le> k \<and>
        path ! j = ?P (r, l) - 1"
      by (intro exI[of _ r] exI[of _ "j + 2"]) simp
  qed
  have fin: "?D (n, k) \<noteq> Infinity \<longrightarrow> - 1 \<le> last path \<and> last path + 4 \<le> int n"
    using tables_of_P_cases[of k k polyfit n distances c n] assms(2) r(4) by auto
  from r chain fin show ?thesis by blast
qed

theorem segment_path_shape_witness:
  "length [0, 0, 1, 0, 0, 0, 0 :: real] = 7 \<and> (1 :: nat) \<le> 2 \<and>
   (\<exists>D P c' path.
      segment_tables lstsq_parabola 7 2 [0, 0, 1, 0, 0, 0, 0] empty_caches = Inr (D, P, c') \<and>
      segment lstsq_parabola 7 2 [0, 0, 1, 0, 0, 0, 0] empty_caches = Inr (path, c') \<and>
      length path = 2 \<and> last path = P (7, 2) - 1 \<and>
      (\<exists>r l. np_index (7 + 1) (path ! (0 + 1) + 1) = Inr r \<and> 1 \<le> l \<and> l \<le> 2 \<and>
             path ! 0 = P (r, l) - 1))"
proof -
  have "\<exists>D P c' path.
      segment_tables lstsq_parabola 7 2 [0, 0, 1, 0, 0, 0, 0] empty_caches = Inr (D, P, c') \<and>
      segment lstsq_parabola 7 2 [0, 0, 1, 0, 0, 0, 0] empty_caches = Inr (path, c') \<and>
      length path = 2 \<and> last path = P (7, 2) - 1 \<and>
      (\<forall>j. j + 1 < 2 \<longrightarrow>
         (\<exists>r l. np_index (7 + 1) (path ! (j + 1) + 1) = Inr r \<and> 1 \<le> l \<and> l \<le> 2 \<and>
                path ! j = P (r, l) - 1)) \<and>
      (D (7, 2) \<noteq> Infinity \<longrightarrow> - 1 \<le> last path \<and> last path + 4 \<le> int 7)"
    by (rule segment_path_shape) simp_all
  then obtain D P c' path where f:
    "segment_tables lstsq_parabola 7 2 [0, 0, 1, 0, 0, 0, 0] empty_caches = Inr (D, P, c')"
    "segment lstsq_parabola 7 2 [0, 0, 1, 0, 0, 0, 0] empty_caches = Inr (path, c')"
    "length path = 2" "last path = P (7, 2) - 1"
    "\<forall>j. j + 1 < 2 \<longrightarrow>
         (\<exists>r l. np_index (7 + 1) (path ! (j + 1) + 1) = Inr r \<and> 1 \<le> l \<and> l \<le> 2 \<and>
                path ! j = P (r, l) - 1)"
    by blast
  have "(0 :: nat) + 1 < 2" by simp
  with f(5) have "\<exists>r l. np_index (7 + 1) (path ! (0 + 1) + 1) = Inr r \<and> 1 \<le> l \<and> l \<le> 2 \<and>
      path ! 0 = P (r, l) - 1" by blast
  with f(1-4) show ?thesis by (intro conjI exI[of _ D] exI[of _ P] exI[of _ c'] exI[of _ path]) simp_all
qed

theorem segment_path_shape_counterexample:
  "segment_path lstsq_parabola 3 1 [0, 0, 0] empty_caches = Inr [- 1]"
  using segment_k1[of "[0, 0, 0]" 3 lstsq_parabola empty_caches]
  by (auto simp: segment_path_def)

section \<open>One more segment\<close>

text \<open>
  Every start that the scan of an entry reaches bounds the entry from above, and no entry
  is negative when the residuals are sums of squares.
\<close>

lemma Finite_le_iff: "Finite a \<le> Finite b \<longleftrightarrow> a \<le> b"
  by (auto simp: less_eq_cost_def)

lemma Finite_less_iff: "Finite a < Finite b \<longleftrightarrow> a < b"
  by (simp add: less_cost_def)

lemma cost_add_mono: "a \<le> b \<Longrightarrow> cost_add a (Finite r) \<le> cost_add b (Finite r)"
  by (cases a; cases b) (auto simp: less_eq_cost_def)

lemma cost_add_nonneg: "Finite 0 \<le> a \<Longrightarrow> 0 \<le> r \<Longrightarrow> Finite 0 \<le> cost_add a (Finite r)"
  by (cases a) (auto simp: less_eq_cost_def)

lemma tables_of_le_candidate:
  assumes "1 \<le> l" "l \<le> k" "e \<le> n" "t + l \<le> e" "t + 3 \<le> e"
  shows "fst (tables_of polyfit n k distances c) (e, l)
     \<le> cost_add (fst (tables_of polyfit n k distances c) (t, l - 1))
          (Finite (seen_residual polyfit distances c t e))"
proof -
  let ?D = "fst (tables_of polyfit n k distances c)"
  let ?res = "seen_residual polyfit distances c"
  have le: "l \<le> e" using assms(4) by simp
  have t: "t < e - l + 1" "3 \<le> e - t" using assms(4,5) by simp_all
  from tables_of_recurrence[OF assms(1,2) le assms(3), of polyfit distances c]
  show ?thesis unfolding scan_inv_def
  proof (elim disjE conjE exE)
    assume "(?D (e, l), snd (tables_of polyfit n k distances c) (e, l)) = (Infinity, - 1)"
      "\<forall>s<e - l + 1. 3 \<le> e - s \<longrightarrow> ?D (s, l - 1) = Infinity"
    with t have "?D (t, l - 1) = Infinity" by simp
    then show ?thesis by (simp add: cost_le_Infinity)
  next
    fix s assume "(?D (e, l), snd (tables_of polyfit n k distances c) (e, l))
        = (candidate ?res (\<lambda>s. ?D (s, l - 1)) e s, int s)"
      "\<forall>t<e - l + 1. 3 \<le> e - t \<longrightarrow>
         candidate ?res (\<lambda>s. ?D (s, l - 1)) e s \<le> candidate ?res (\<lambda>s. ?D (s, l - 1)) e t"
    with t have "?D (e, l) \<le> candidate ?res (\<lambda>s. ?D (s, l - 1)) e t" by simp
    then show ?thesis by (simp add: candidate_def)
  qed
qed

text \<open>
  At \<open>end = min_len l\<close> one start is left: the table holds the partition whose segment of
  layer \<open>j\<close> has \<open>max 3 j\<close> points.
\<close>

lemma tables_of_tight:
  assumes "l \<le> k" "min_len (Suc l) \<le> n" "Suc l \<le> k"
  shows "fst (tables_of polyfit n k distances c) (min_len (Suc l), Suc l)
       = cost_add (fst (tables_of polyfit n k distances c) (min_len l, l))
           (Finite (seen_residual polyfit distances c (min_len l) (min_len (Suc l))))"
    and "snd (tables_of polyfit n k distances c) (min_len (Suc l), Suc l) = int (min_len l)"
proof -
  let ?res = "seen_residual polyfit distances c"
  let ?e = "min_len (Suc l)"
  have fin: "fst (layer ?res n (Suc l) ?e) \<noteq> Infinity"
    using assms(2) by (simp only: layer_finite_iff) simp
  from layer_cases[of ?res n "Suc l" ?e] fin
  obtain s where s: "s + Suc l \<le> ?e" "s + 3 \<le> ?e"
    "layer ?res n (Suc l) ?e = (candidate ?res (\<lambda>s. fst (layer ?res n l s)) ?e s, int s)"
    "fst (layer ?res n l s) \<noteq> Infinity"
    by auto
  from s(1,2) have "s \<le> min_len l" by simp
  moreover from s(4) have "min_len l \<le> s"
    by (cases "l = 0") (simp_all add: layer_finite_iff)
  ultimately have "s = min_len l" by simp
  with s(3) assms(1,3) show
    "fst (tables_of polyfit n k distances c) (min_len (Suc l), Suc l)
       = cost_add (fst (tables_of polyfit n k distances c) (min_len l, l))
           (Finite (seen_residual polyfit distances c (min_len l) (min_len (Suc l))))"
    "snd (tables_of polyfit n k distances c) (min_len (Suc l), Suc l) = int (min_len l)"
    by (simp_all add: tables_of_D tables_of_P candidate_def)
qed

lemma seen_residual_nonneg:
  assumes "mse_cache c (s, e) = None"
  shows "0 \<le> seen_residual polyfit distances c s e"
  using assms by (auto simp: seen_residual_def intro!: sum_list_nonneg)

lemma layer_nonneg:
  assumes "\<And>s e. 0 \<le> res s e"
  shows "Finite 0 \<le> fst (layer res n l e)"
proof (induction l arbitrary: e)
  case 0
  show ?case by (simp add: cost_le_Infinity)
next
  case (Suc l)
  from layer_cases[of res n "Suc l" e] show ?case
  proof (elim disjE conjE exE)
    assume "layer res n (Suc l) e = (Infinity, - 1)"
    then show ?thesis by (simp add: cost_le_Infinity)
  next
    assume "Suc l = 0"
    then show ?thesis by simp
  next
    fix l' s assume "Suc l = Suc l'"
      "layer res n (Suc l) e = (candidate res (\<lambda>s. fst (layer res n l' s)) e s, int s)"
    then have "fst (layer res n (Suc l) e) = cost_add (fst (layer res n l s)) (Finite (res s e))"
      by (simp add: candidate_def)
    then show ?thesis using Suc[of s] assms[of s e] by (simp add: cost_add_nonneg)
  qed
qed

lemma tables_of_nonneg:
  assumes "mse_cache c = Map.empty"
  shows "Finite 0 \<le> fst (tables_of polyfit n k distances c) (e, l)"
proof -
  have "0 \<le> seen_residual polyfit distances c s e'" for s e'
    by (rule seen_residual_nonneg) (simp add: assms)
  then have "Finite 0 \<le> fst (layer (seen_residual polyfit distances c) n l e)"
    by (rule layer_nonneg)
  then show ?thesis by (simp add: tables_of_D cost_le_Infinity)
qed

lemma tables_of_origin:
  "fst (tables_of polyfit n k distances c) (0, 0) = Finite 0"
  by (simp add: tables_of_D)

lemma upt_lists_13:
  "[3..<6] = [3, 4, 5 :: nat]" "[6..<9] = [6, 7, 8 :: nat]"
  "[9..<13] = [9, 10, 11, 12 :: nat]" "[0..<5] = [0, 1, 2, 3, 4 :: nat]"
  "[5..<10] = [5, 6, 7, 8, 9 :: nat]" "[10..<13] = [10, 11, 12 :: nat]"
  by (simp_all add: upt_rec)

lemma residuals_13:
  "seen_residual lstsq_parabola [0, 0, 0, 0, 0, 0, 0, 0, 0, 0, 1, 0, 1] empty_caches 0 3 = 0"
  "seen_residual lstsq_parabola [0, 0, 0, 0, 0, 0, 0, 0, 0, 0, 1, 0, 1] empty_caches 3 6 = 0"
  "seen_residual lstsq_parabola [0, 0, 0, 0, 0, 0, 0, 0, 0, 0, 1, 0, 1] empty_caches 6 9 = 0"
  "seen_residual lstsq_parabola [0, 0, 0, 0, 0, 0, 0, 0, 0, 0, 1, 0, 1] empty_caches 9 13 = 4 / 5"
  "seen_residual lstsq_parabola [0, 0, 0, 0, 0, 0, 0, 0, 0, 0, 1, 0, 1] empty_caches 0 5 = 0"
  "seen_residual lstsq_parabola [0, 0, 0, 0, 0, 0, 0, 0, 0, 0, 1, 0, 1] empty_caches 5 10 = 0"
  "seen_residual lstsq_parabola [0, 0, 0, 0, 0, 0, 0, 0, 0, 0, 1, 0, 1] empty_caches 10 13 = 0"
  by (simp_all add: residual_eval upt_lists_13)

lemma min_len_values:
  "min_len 1 = 3" "min_len 2 = 6" "min_len 3 = 9" "min_len 4 = 13"
  by (simp_all add: numeral_eq_Suc)

text \<open>
  Claim C6, at \<open>n = 13\<close> and \<open>k = 3\<close>. The signal is ten times 0, then 1, 0, 1. Three
  segments of five, five and three points fit it exactly, so \<^verbatim>\<open>D[13][3] = 0\<close>. Four
  segments of three, three, four and three points fit it exactly too, but the last of them
  starts at 10, above \<open>end - length = 9\<close>, where the loop over \<open>start\<close> does not look. The
  table holds the partition into three, three, three and four points, and
  \<^verbatim>\<open>D[13][4] = 4/5\<close>: one more segment has increased the residual.
\<close>

theorem residual_not_monotone:
  "(case segment_tables lstsq_parabola 13 4 [0, 0, 0, 0, 0, 0, 0, 0, 0, 0, 1, 0, 1] empty_caches of
      Inl err \<Rightarrow> False
    | Inr (D, P, c') \<Rightarrow>
        D (13, 3) = Finite 0 \<and> D (13, 4) = Finite (4 / 5) \<and> cost_less (D (13, 3)) (D (13, 4)))"
proof -
  let ?d = "[0, 0, 0, 0, 0, 0, 0, 0, 0, 0, 1, 0, 1 :: real]"
  let ?D = "fst (tables_of lstsq_parabola 13 4 ?d empty_caches)"
  let ?P = "snd (tables_of lstsq_parabola 13 4 ?d empty_caches)"
  from segment_run[of 13 ?d lstsq_parabola 4 empty_caches]
  obtain c' where r: "segment_tables lstsq_parabola 13 4 ?d empty_caches = Inr (?D, ?P, c')"
    by auto
  have suc: "Suc 0 = (1 :: nat)" "Suc 1 = (2 :: nat)" "Suc 2 = (3 :: nat)" "Suc 3 = (4 :: nat)"
    by simp_all
  have "?D (min_len (Suc 0), Suc 0) = cost_add (?D (min_len 0, 0))
      (Finite (seen_residual lstsq_parabola ?d empty_caches (min_len 0) (min_len (Suc 0))))"
    by (rule tables_of_tight(1)) simp_all
  then have D1: "?D (3, 1) = Finite 0"
    unfolding suc min_len_values min_len.simps(1) tables_of_origin residuals_13 by simp
  have "?D (min_len (Suc 1), Suc 1) = cost_add (?D (min_len 1, 1))
      (Finite (seen_residual lstsq_parabola ?d empty_caches (min_len 1) (min_len (Suc 1))))"
    by (rule tables_of_tight(1)) (simp_all add: min_len_values)
  then have D2: "?D (6, 2) = Finite 0"
    unfolding suc min_len_values D1 residuals_13 by simp
  have "?D (min_len (Suc 2), Suc 2) = cost_add (?D (min_len 2, 2))
      (Finite (seen_residual lstsq_parabola ?d empty_caches (min_len 2) (min_len (Suc 2))))"
    by (rule tables_of_tight(1)) (simp_all add: min_len_values)
  then have D3': "?D (9, 3) = Finite 0"
    unfolding suc min_len_values D2 residuals_13 by simp
  have "?D (min_len (Suc 3), Suc 3) = cost_add (?D (min_len 3, 3))
      (Finite (seen_residual lstsq_parabola ?d empty_caches (min_len 3) (min_len (Suc 3))))"
    by (rule tables_of_tight(1)) (simp_all add: min_len_values)
  then have D4: "?D (13, 4) = Finite (4 / 5)"
    unfolding suc min_len_values D3' residuals_13 by simp
  have "?D (5, 1) \<le> cost_add (?D (0, 1 - 1)) (Finite (seen_residual lstsq_parabola ?d empty_caches 0 5))"
    by (rule tables_of_le_candidate) simp_all
  then have a: "?D (5, 1) \<le> Finite 0" by (simp add: tables_of_origin residuals_13)
  have "?D (10, 2) \<le> cost_add (?D (5, 2 - 1)) (Finite (seen_residual lstsq_parabola ?d empty_caches 5 10))"
    by (rule tables_of_le_candidate) simp_all
  also have "\<dots> \<le> cost_add (Finite 0) (Finite (seen_residual lstsq_parabola ?d empty_caches 5 10))"
    using a by (intro cost_add_mono) simp
  finally have b: "?D (10, 2) \<le> Finite 0" by (simp add: residuals_13)
  have "?D (13, 3) \<le> cost_add (?D (10, 3 - 1)) (Finite (seen_residual lstsq_parabola ?d empty_caches 10 13))"
    by (rule tables_of_le_candidate) simp_all
  also have "\<dots> \<le> cost_add (Finite 0) (Finite (seen_residual lstsq_parabola ?d empty_caches 10 13))"
    using b by (intro cost_add_mono) simp
  finally have "?D (13, 3) \<le> Finite 0" by (simp add: residuals_13)
  moreover have "Finite 0 \<le> ?D (13, 3)"
    by (rule tables_of_nonneg) (simp add: empty_caches_def)
  ultimately have D3: "?D (13, 3) = Finite 0" by simp
  from r D3 D4 show ?thesis by simp
qed

section \<open>The claims on the height estimator\<close>

lemma for_each_append:
  "for_each body (xs @ ys) s =
     (case for_each body xs s of Inl err \<Rightarrow> Inl err | Inr s' \<Rightarrow> for_each body ys s')"
  by (induction xs arbitrary: s) (auto split: sum.splits)

lemma inlier_count_pos:
  assumes "i < length points" "0 < threshold"
  shows "1 \<le> inlier_count points (z_of (points ! i)) threshold"
proof -
  have "points ! i \<in> set (filter (\<lambda>p. \<bar>z_of p - z_of (points ! i)\<bar> < threshold) points)"
    using assms by simp
  then have "filter (\<lambda>p. \<bar>z_of p - z_of (points ! i)\<bar> < threshold) points \<noteq> []"
    by (metis empty_iff list.set(1))
  then show ?thesis unfolding inlier_count_def by (simp add: Suc_le_eq)
qed

lemma ransac_prefix:
  assumes valid: "\<forall>t<m. choice t < length points" and thr: "0 < threshold" and m: "0 < m"
  shows "\<exists>j<m. for_each (ransac_body points threshold choice) [0..<m] (None, 0)
             = Inr (Some (z_of (points ! choice j)),
                    inlier_count points (z_of (points ! choice j)) threshold) \<and>
           (\<forall>t<m. inlier_count points (z_of (points ! choice t)) threshold
                   \<le> inlier_count points (z_of (points ! choice j)) threshold) \<and>
           (\<forall>t<j. inlier_count points (z_of (points ! choice t)) threshold
                   < inlier_count points (z_of (points ! choice j)) threshold)"
  using m valid
proof (induction m)
  case 0
  then show ?case by simp
next
  case (Suc m)
  let ?cnt = "\<lambda>t. inlier_count points (z_of (points ! choice t)) threshold"
  let ?run = "\<lambda>m. for_each (ransac_body points threshold choice) [0..<m] (None, 0)"
  have vm: "choice m < length points" using Suc.prems(2) by simp
  have pos: "1 \<le> ?cnt m" using vm thr by (rule inlier_count_pos)
  show ?case
  proof (cases "m = 0")
    case True
    have "?run (Suc 0) = Inr (Some (z_of (points ! choice 0)), ?cnt 0)"
      using vm pos True by (simp add: ransac_body_def Let_def)
    then show ?thesis using True by simp
  next
    case False
    then have "0 < m" by simp
    moreover have "\<forall>t<m. choice t < length points" using Suc.prems(2) by simp
    ultimately obtain j where j: "j < m"
      "?run m = Inr (Some (z_of (points ! choice j)), ?cnt j)"
      "\<forall>t<m. ?cnt t \<le> ?cnt j" "\<forall>t<j. ?cnt t < ?cnt j"
      using Suc.IH by blast
    have step: "?run (Suc m)
        = ransac_body points threshold choice m (Some (z_of (points ! choice j)), ?cnt j)"
      using j(2) by (simp add: for_each_append split: sum.splits)
    show ?thesis
    proof (cases "?cnt j < ?cnt m")
      case True
      then have "?run (Suc m) = Inr (Some (z_of (points ! choice m)), ?cnt m)"
        using step vm by (simp add: ransac_body_def Let_def)
      moreover have "\<forall>t<Suc m. ?cnt t \<le> ?cnt m"
        using j(3) True by (auto simp: less_Suc_eq intro: order_trans less_imp_le)
      moreover have "\<forall>t<m. ?cnt t < ?cnt m"
        using j(3) True by (auto intro: le_less_trans)
      ultimately show ?thesis by (intro exI[of _ m]) simp
    next
      case False
      then have "?run (Suc m) = Inr (Some (z_of (points ! choice j)), ?cnt j)"
        using step vm by (simp add: ransac_body_def Let_def)
      moreover have "\<forall>t<Suc m. ?cnt t \<le> ?cnt j"
        using j(3) False by (auto simp: less_Suc_eq)
      ultimately show ?thesis using j(1,4) by (intro exI[of _ j]) simp
    qed
  qed
qed

lemma inlier_count_card:
  "inlier_count points sample_z threshold
     = card {i. i < length points \<and> \<bar>z_of (points ! i) - sample_z\<bar> < threshold}"
  by (simp add: inlier_count_def length_filter_conv_card)

text \<open>
  Claim C7. Under the estimator's contract (points not empty, at least one iteration, a
  positive threshold, every draw an index of a point), the inliers of an iteration are
  the points whose \<open>z\<close> differs from the sampled \<open>z\<close> by strictly less than
  \<open>threshold\<close>, and \<open>ransac_z_fit\<close> returns the sampled \<open>z\<close> and the inlier count of an
  iteration \<open>j\<close> whose count is the greatest of all iterations and strictly greater than
  the count of every earlier iteration: the first iteration attaining the maximum, which
  a later equal count does not replace.
\<close>

theorem ransac_first_maximum:
  assumes "points \<noteq> []" "0 < iterations" "0 < threshold"
    and "\<forall>t<iterations. choice t < length points"
  shows "\<exists>j<iterations.
           ransac_z_fit points iterations threshold choice
             = Inr (Some (z_of (points ! choice j)),
                 card {i. i < length points \<and>
                          \<bar>z_of (points ! i) - z_of (points ! choice j)\<bar> < threshold}) \<and>
           (\<forall>t<iterations.
               card {i. i < length points \<and>
                        \<bar>z_of (points ! i) - z_of (points ! choice t)\<bar> < threshold}
               \<le> card {i. i < length points \<and>
                          \<bar>z_of (points ! i) - z_of (points ! choice j)\<bar> < threshold}) \<and>
           (\<forall>t<j.
               card {i. i < length points \<and>
                        \<bar>z_of (points ! i) - z_of (points ! choice t)\<bar> < threshold}
               < card {i. i < length points \<and>
                          \<bar>z_of (points ! i) - z_of (points ! choice j)\<bar> < threshold})"
  using ransac_prefix[OF assms(4,3,2)]
  unfolding ransac_z_fit_def inlier_count_card .

theorem ransac_first_maximum_witness:
  "[(0, 0, 1), (0, 0, 5), (0, 0, 5.2)] \<noteq> ([] :: point3 list) \<and> (0 :: nat) < 3 \<and>
   (0 :: real) < 1 / 2 \<and>
   (\<exists>j<3. ransac_z_fit [(0, 0, 1), (0, 0, 5), (0, 0, 5.2)] 3 (1 / 2) (\<lambda>t. t)
             = Inr (Some (z_of ([(0, 0, 1), (0, 0, 5), (0, 0, 5.2)] ! j)),
                 card {i. i < length [(0, 0, 1), (0, 0, 5), (0, 0, 5.2 :: real)] \<and>
                          \<bar>z_of ([(0, 0, 1), (0, 0, 5), (0 :: real, 0 :: real, 5.2 :: real)] ! i)
                             - z_of ([(0, 0, 1), (0, 0, 5), (0 :: real, 0 :: real, 5.2)] ! j)\<bar>
                          < 1 / 2}))"
  using ransac_first_maximum[of "[(0, 0, 1), (0, 0, 5), (0, 0, 5.2)]" 3 "1 / 2" "\<lambda>t. t"]
  by simp blast

text \<open>
  Claim C8. For points not empty, \<open>iterations \<ge> 1\<close>, \<open>threshold > 0\<close> and draws that are
  row indices, \<open>ransac_z_fit\<close> returns the \<open>z\<close> of the point sampled in one of its
  iterations, never \<^verbatim>\<open>None\<close>, together with the number of rows whose \<open>z\<close> is within the
  threshold of it. The sampled row is one of them, so the count is at least one; and the
  sample of no iteration has more.
\<close>

theorem ransac_returns_sample:
  assumes "points \<noteq> []" "1 \<le> iterations" "0 < threshold"
    and "\<forall>t<iterations. choice t < length points"
  shows "\<exists>j<iterations.
           ransac_z_fit points iterations threshold choice
             = Inr (Some (z_of (points ! choice j)),
                 card {i. i < length points \<and>
                          \<bar>z_of (points ! i) - z_of (points ! choice j)\<bar> < threshold}) \<and>
           choice j \<in> {i. i < length points \<and>
                          \<bar>z_of (points ! i) - z_of (points ! choice j)\<bar> < threshold} \<and>
           1 \<le> card {i. i < length points \<and>
                          \<bar>z_of (points ! i) - z_of (points ! choice j)\<bar> < threshold} \<and>
           (\<forall>t<iterations.
               card {i. i < length points \<and>
                        \<bar>z_of (points ! i) - z_of (points ! choice t)\<bar> < threshold}
               \<le> card {i. i < length points \<and>
                          \<bar>z_of (points ! i) - z_of (points ! choice j)\<bar> < threshold})"
proof -
  from assms(2) have it: "0 < iterations" by simp
  from ransac_prefix[OF assms(4,3) it] obtain j where j: "j < iterations"
    "ransac_z_fit points iterations threshold choice
       = Inr (Some (z_of (points ! choice j)),
              inlier_count points (z_of (points ! choice j)) threshold)"
    "\<forall>t<iterations. inlier_count points (z_of (points ! choice t)) threshold
         \<le> inlier_count points (z_of (points ! choice j)) threshold"
    unfolding ransac_z_fit_def by blast
  have v: "choice j < length points" using assms(4) j(1) by simp
  have pos: "1 \<le> inlier_count points (z_of (points ! choice j)) threshold"
    using v assms(3) by (rule inlier_count_pos)
  have mem: "choice j \<in> {i. i < length points \<and>
      \<bar>z_of (points ! i) - z_of (points ! choice j)\<bar> < threshold}"
    using v assms(3) by simp
  from j pos mem show ?thesis unfolding inlier_count_card by blast
qed

theorem ransac_returns_sample_witness:
  "[(0, 0, 1), (0, 0, 5), (0, 0, 5.2)] \<noteq> ([] :: point3 list) \<and> (1 :: nat) \<le> 2 \<and>
   (0 :: real) < 1 / 2 \<and>
   ransac_z_fit [(0, 0, 1), (0, 0, 5), (0, 0, 5.2)] 2 (1 / 2) (\<lambda>t. t) = Inr (Some 5, 2) \<and>
   (\<exists>j<2. ransac_z_fit [(0, 0, 1), (0, 0, 5), (0, 0, 5.2)] 2 (1 / 2) (\<lambda>t. t)
             = Inr (Some (z_of ([(0, 0, 1), (0, 0, 5), (0, 0, 5.2)] ! j)),
                 card {i. i < length [(0, 0, 1), (0, 0, 5), (0, 0, 5.2 :: real)] \<and>
                          \<bar>z_of ([(0, 0, 1), (0, 0, 5), (0 :: real, 0 :: real, 5.2 :: real)] ! i)
                             - z_of ([(0, 0, 1), (0, 0, 5), (0 :: real, 0 :: real, 5.2)] ! j)\<bar>
                          < 1 / 2}) \<and>
          1 \<le> card {i. i < length [(0, 0, 1), (0, 0, 5), (0, 0, 5.2 :: real)] \<and>
                          \<bar>z_of ([(0, 0, 1), (0, 0, 5), (0 :: real, 0 :: real, 5.2 :: real)] ! i)
                             - z_of ([(0, 0, 1), (0, 0, 5), (0 :: real, 0 :: real, 5.2)] ! j)\<bar>
                          < 1 / 2})"
proof -
  have run: "ransac_z_fit [(0, 0, 1), (0, 0, 5), (0, 0, 5.2)] 2 (1 / 2) (\<lambda>t. t) = Inr (Some 5, 2)"
    by (simp add: ransac_z_fit_def ransac_body_def inlier_count_def z_of_def Let_def
        upt_rec eval_nat_numeral)
  from ransac_returns_sample[of "[(0, 0, 1), (0, 0, 5), (0, 0, 5.2)]" 2 "1 / 2" "\<lambda>t. t"] run
  show ?thesis by simp blast
qed

section \<open>The claim on the bounding box\<close>

lemma fancy_index_ok:
  assumes "\<forall>i\<in>set path. - int (length xs) \<le> i \<and> i < int (length xs)"
  shows "\<exists>ys. fancy_index xs path = Inr ys \<and> length ys = length path"
  using assms
proof (induction path)
  case Nil
  show ?case by simp
next
  case (Cons i path)
  then obtain ys where ys: "fancy_index xs path = Inr ys" "length ys = length path" by auto
  from Cons.prems have "- int (length xs) \<le> i" "i < int (length xs)" by simp_all
  then obtain r where "np_index (length xs) i = Inr r"
    by (cases "0 \<le> i") (auto simp: np_index_def)
  with ys show ?case by simp
qed

lemma sort_key_nth_mono:
  assumes "i \<le> j" "j < length xs"
  shows "f (sort_key f xs ! i) \<le> f (sort_key f xs ! j)"
proof -
  have s: "sorted (map f (sort_key f xs))" by (rule sorted_sort_key)
  have "map f (sort_key f xs) ! i \<le> map f (sort_key f xs) ! j"
    by (rule sorted_nth_mono[OF s assms(1)]) (simp add: assms(2))
  then show ?thesis using assms by simp
qed

lemma avg_mono: "a \<le> c \<Longrightarrow> b \<le> d \<Longrightarrow> avg a b \<le> avg c d"
  by (simp add: avg_def)

lemma rectangle_order:
  assumes "rectangle path_points = Inr (ll, lr, ur, ul)"
  shows "fst ll = fst ul \<and> fst lr = fst ur \<and> snd ll = snd lr \<and> snd ul = snd ur \<and>
         fst ll \<le> fst lr \<and> snd ll \<le> snd ul"
proof -
  from assms have len: "\<not> length path_points < 4"
    by (auto simp: rectangle_def split: if_splits)
  let ?px = "sort_key x_of path_points" and ?py = "sort_key y_of path_points"
  have x: "avg (x_of (?px ! 0)) (x_of (?px ! 1)) \<le> avg (x_of (?px ! 2)) (x_of (?px ! 3))"
    by (intro avg_mono sort_key_nth_mono) (use len in simp_all)
  have y: "avg (y_of (?py ! 0)) (y_of (?py ! 1)) \<le> avg (y_of (?py ! 2)) (y_of (?py ! 3))"
    by (intro avg_mono sort_key_nth_mono) (use len in simp_all)
  from assms len x y show ?thesis by (auto simp: rectangle_def Let_def)
qed

lemma bounding_box_3d_stages:
  assumes "bounding_box_3d polyfit points choice_floor choice_ceiling st = Inr (v, st')"
  shows "\<exists>path_points ll lr ur ul floor_z ceiling_z m1 m2.
           rectangle path_points = Inr (ll, lr, ur, ul) \<and>
           ransac_z_fit (filter (\<lambda>p. z_of p < median (map z_of points)) points)
             100 (1 / 2) choice_floor = Inr (floor_z, m1) \<and>
           ransac_z_fit (filter (\<lambda>p. z_of p > median (map z_of points)) points)
             100 (1 / 2) choice_ceiling = Inr (ceiling_z, m2) \<and>
           v = rectangle_3d ll lr ur ul floor_z ceiling_z"
  using assms unfolding bounding_box_3d_def Let_def
  by (auto split: prod.splits sum.splits) blast

text \<open>
  \<open>plot_parab\<close> returns on every range \<open>0 \<le> a < b \<le> len(distances)\<close>.
\<close>

lemma cost_add_pos: "Finite 0 \<le> a \<Longrightarrow> 0 < r \<Longrightarrow> Finite 0 < cost_add a (Finite r)"
  by (cases a) (auto simp: less_eq_cost_def less_cost_def)

lemma for_each_total:
  assumes "\<And>x s. x \<in> set xs \<Longrightarrow> \<exists>s'. body x s = Inr s'"
  shows "\<exists>s'. for_each body xs s = Inr s'"
  using assms
proof (induction xs arbitrary: s)
  case Nil
  show ?case by simp
next
  case (Cons x xs)
  from Cons.prems[of x s] obtain s1 where s1: "body x s = Inr s1" by auto
  have "\<exists>s'. for_each body xs s1 = Inr s'"
    by (rule Cons.IH) (use Cons.prems in auto)
  with s1 show ?case by simp
qed

lemma generate_parab_total:
  assumes "s < e" "e \<le> length distances"
  shows "\<exists>p c'. generate_parab polyfit s e distances c = Inr (p, c')"
proof (cases "parabola_cache c (s, e)")
  case None
  have "np_polyfit polyfit (map real [s..<e]) (slice s e distances)
      = Inr (polyfit (map real [s..<e]) (slice s e distances))"
    using assms by (simp add: np_polyfit_def length_slice)
  with None show ?thesis by (simp add: generate_parab_def)
next
  case (Some p)
  then show ?thesis by (simp add: generate_parab_def)
qed

lemma plot_parab_total:
  assumes "0 \<le> a" "a < b" "b \<le> int (length distances)"
  shows "\<exists>xy st'. plot_parab polyfit a b distances st = Inr (xy, st')"
proof -
  obtain c neg where st: "st = (c, neg)" by (cases st)
  have "nat a < nat b" "nat b \<le> length distances" using assms by simp_all
  from generate_parab_total[OF this, of polyfit c] obtain p c' where
    "generate_parab polyfit (nat a) (nat b) distances c = Inr (p, c')" by blast
  then show ?thesis using assms(1,2)
    by (simp add: plot_parab_def generate_parab_any_def st Let_def)
qed

lemma plot_segments_total:
  assumes "path \<noteq> []"
    and "\<And>a b. (a, b) \<in> set (plot_ranges path (length distances)) \<Longrightarrow>
           0 \<le> a \<and> a < b \<and> b \<le> int (length distances)"
  shows "\<exists>st'. plot_segments polyfit path distances st = Inr st'"
proof -
  have "\<exists>s'. for_each
             (\<lambda>(a, b) st. case plot_parab polyfit a b distances st of
                             Inl err \<Rightarrow> Inl err
                           | Inr (xy, st') \<Rightarrow> Inr st')
             (plot_ranges path (length distances)) st = Inr s'"
  proof (rule for_each_total)
    fix x :: "int \<times> int" and s :: process_caches
    assume x: "x \<in> set (plot_ranges path (length distances))"
    obtain a b where ab: "x = (a, b)" by (cases x)
    from assms(2)[of a b] x ab have "0 \<le> a" "a < b" "b \<le> int (length distances)" by simp_all
    from plot_parab_total[OF this, of polyfit s] obtain xy st' where
      "plot_parab polyfit a b distances s = Inr (xy, st')" by blast
    then show "\<exists>s'. (case x of (a, b) \<Rightarrow> \<lambda>st. case plot_parab polyfit a b distances st of
                             Inl err \<Rightarrow> Inl err
                           | Inr (xy, st') \<Rightarrow> Inr st') s = Inr s'"
      by (simp add: ab)
  qed
  with assms(1) show ?thesis by (simp add: plot_segments_def)
qed

text \<open>
  When the last segment of the four starts at 13, the table leaves one chain and the walk
  follows it.
\<close>

lemma segment_path_from_13:
  assumes len: "length distances = n"
    and P: "snd (tables_of polyfit n 4 distances c) (n, 4) = 13"
  shows "\<exists>c'. segment polyfit n 4 distances c = Inr ([2, 5, 8, 12], c')"
proof -
  let ?P = "snd (tables_of polyfit n 4 distances c)"
  have n: "17 \<le> n"
    using tables_of_P_cases[of 4 4 polyfit n distances c n] P by auto
  from segment_run[of n distances polyfit 4 c] len
  obtain c' path where r: "segment polyfit n 4 distances c = Inr (path, c')" "length path = 4"
    "last path = ?P (n, 4) - 1"
    by auto
  from segment_chain[of n distances polyfit 4 c] len r(1)
  have ch: "\<forall>j. j + 1 < 4 \<longrightarrow>
      (\<exists>r. np_index (n + 1) (path ! (j + 1) + 1) = Inr r \<and> path ! j = ?P (r, j + 2) - 1)"
    by auto
  have suc: "Suc 1 = (2 :: nat)" "Suc 2 = (3 :: nat)" "Suc 3 = (4 :: nat)" by simp_all
  have "?P (min_len (Suc 3), Suc 3) = int (min_len 3)"
    by (rule tables_of_tight(2)) (use n in \<open>simp_all add: min_len_values\<close>)
  then have P4: "?P (13, 4) = 9" unfolding suc min_len_values by simp
  have "?P (min_len (Suc 2), Suc 2) = int (min_len 2)"
    by (rule tables_of_tight(2)) (use n in \<open>simp_all add: min_len_values\<close>)
  then have P3: "?P (9, 3) = 6" unfolding suc min_len_values by simp
  have "?P (min_len (Suc 1), Suc 1) = int (min_len 1)"
    by (rule tables_of_tight(2)) (use n in \<open>simp_all add: min_len_values\<close>)
  then have P2: "?P (6, 2) = 3" unfolding suc min_len_values by simp
  from r(2) have "path \<noteq> []" by auto
  then have "last path = path ! 3" using r(2) by (simp add: last_conv_nth)
  with r(3) P have p3: "path ! 3 = 12" by simp
  have idx: "np_index (n + 1) i = Inr (nat i)" if "0 \<le> i" "i \<le> 13" for i
    using that n by (simp add: np_index_def)
  have e: "(2 :: nat) + 1 = 3" "(2 :: nat) + 2 = 4" "(1 :: nat) + 1 = 2" "(1 :: nat) + 2 = 3"
    "(0 :: nat) + 1 = 1" "(0 :: nat) + 2 = 2" by simp_all
  have "(2 :: nat) + 1 < 4" by simp
  from ch[rule_format, OF this] obtain r2 where
    r2: "np_index (n + 1) (path ! (2 + 1) + 1) = Inr r2" "path ! 2 = ?P (r2, 2 + 2) - 1" by blast
  from r2(1) have "np_index (n + 1) 13 = Inr r2" unfolding e p3 by simp
  with idx[of 13] have "r2 = 13" by simp
  with r2(2) P4 have p2: "path ! 2 = 8" unfolding e by simp
  have "(1 :: nat) + 1 < 4" by simp
  from ch[rule_format, OF this] obtain r1 where
    r1: "np_index (n + 1) (path ! (1 + 1) + 1) = Inr r1" "path ! 1 = ?P (r1, 1 + 2) - 1" by blast
  from r1(1) have "np_index (n + 1) 9 = Inr r1" unfolding e p2 by simp
  with idx[of 9] have "r1 = 9" by simp
  with r1(2) P3 have p1: "path ! 1 = 5" unfolding e by simp
  have "(0 :: nat) + 1 < 4" by simp
  from ch[rule_format, OF this] obtain r0 where
    r0: "np_index (n + 1) (path ! (0 + 1) + 1) = Inr r0" "path ! 0 = ?P (r0, 0 + 2) - 1" by blast
  from r0(1) have "np_index (n + 1) 6 = Inr r0" unfolding e p1 by simp
  with idx[of 6] have "r0 = 6" by simp
  with r0(2) P2 have p0: "path ! 0 = 2" unfolding e by simp
  have "path = [2, 5, 8, 12]"
    using r(2) p0 p1 p2 p3
    by (intro nth_equalityI) (auto simp: less_Suc_eq numeral_eq_Suc)
  with r(1) show ?thesis by simp
qed

text \<open>
  \<open>bounding_box_3d\<close> returns a box when the path of \<open>segment\<close> ascends from above \<open>0\<close>
  to below \<open>len(points) - 1\<close> and there are points below and above the median height.
\<close>

lemma bounding_box_3d_returns:
  assumes d: "distances = map (\<lambda>p. euc_dist (x_of p, y_of p)
                  (sum_list (map x_of points) / real (length points),
                   sum_list (map y_of points) / real (length points))) points"
    and seg: "segment polyfit (length points) 4 distances c = Inr (path, c1)"
    and asc: "0 < path ! 0" "path ! 0 < path ! 1" "path ! 1 < path ! 2" "path ! 2 < path ! 3"
      "path ! 3 + 1 < int (length points)"
    and lo: "\<forall>t<100. choice_floor t
               < length (filter (\<lambda>p. z_of p < median (map z_of points)) points)"
    and hi: "\<forall>t<100. choice_ceiling t
               < length (filter (\<lambda>p. z_of p > median (map z_of points)) points)"
  shows "\<exists>v st'. bounding_box_3d polyfit points choice_floor choice_ceiling (c, neg)
           = Inr (v, st')"
proof -
  have len: "length distances = length points" by (simp add: d)
  from segment_run[of "length points" distances polyfit 4 c] len seg
  have l4: "length path = 4" by auto
  have path: "path = [path ! 0, path ! 1, path ! 2, path ! 3]"
    using l4 by (intro nth_equalityI) (auto simp: less_Suc_eq numeral_eq_Suc)
  have "\<forall>i\<in>set path. - int (length points) \<le> i \<and> i < int (length points)"
    by (subst path) (use asc in simp)
  from fancy_index_ok[OF this] l4 obtain ps where
    fi: "fancy_index points path = Inr ps" and ps: "length ps = 4" by auto
  obtain ll lr ur ul where rect: "rectangle ps = Inr (ll, lr, ur, ul)"
    using ps by (simp add: rectangle_def Let_def)
  have ne: "path \<noteq> []" using l4 by auto
  have "\<exists>st2. plot_segments polyfit path distances (c1, neg) = Inr st2"
  proof (rule plot_segments_total[OF ne])
    fix a b assume "(a, b) \<in> set (plot_ranges path (length distances))"
    then have "(a, b) \<in> set (plot_ranges [path ! 0, path ! 1, path ! 2, path ! 3] (length points))"
      using path len by simp
    then show "0 \<le> a \<and> a < b \<and> b \<le> int (length distances)"
      using asc len by (auto simp: plot_ranges_def)
  qed
  then obtain st2 where plots: "plot_segments polyfit path distances (c1, neg) = Inr st2"
    by blast
  from ransac_prefix[OF lo, of "1 / 2"] obtain fz fm where
    floor: "ransac_z_fit (filter (\<lambda>p. z_of p < median (map z_of points)) points)
              100 (1 / 2) choice_floor = Inr (fz, fm)"
    unfolding ransac_z_fit_def by auto
  from ransac_prefix[OF hi, of "1 / 2"] obtain cz cm where
    ceil: "ransac_z_fit (filter (\<lambda>p. z_of p > median (map z_of points)) points)
              100 (1 / 2) choice_ceiling = Inr (cz, cm)"
    unfolding ransac_z_fit_def by auto
  show ?thesis
    unfolding bounding_box_3d_def prod.case Let_def d[symmetric]
    unfolding seg sum.case prod.case fi rect plots floor ceil
    by simp
qed

text \<open>
  The call on the seventeen points returns: the path is \<open>[2, 5, 8, 12]\<close>, every range
  plotted has points, the median height is 1, and there are points below and above it.
\<close>

lemma sample_signal_eq:
  "map (\<lambda>p. euc_dist (x_of p, y_of p)
          (sum_list (map x_of sample_points) / real (length sample_points),
           sum_list (map y_of sample_points) / real (length sample_points)))
     sample_points = sample_signal"
  by (simp add: sample_points_def sample_signal_def euc_dist_def x_of_def y_of_def)

lemma upt_lists_17:
  "[13..<17] = [13, 14, 15, 16 :: nat]" "[12..<17] = [12, 13, 14, 15, 16 :: nat]"
  "[11..<17] = [11, 12, 13, 14, 15, 16 :: nat]" "[10..<17] = [10, 11, 12, 13, 14, 15, 16 :: nat]"
  "[9..<17] = [9, 10, 11, 12, 13, 14, 15, 16 :: nat]"
  by (simp_all add: upt_rec)

lemma sample_residuals_zero:
  "seen_residual lstsq_parabola sample_signal empty_caches 0 5 = 0"
  "seen_residual lstsq_parabola sample_signal empty_caches 5 10 = 0"
  "seen_residual lstsq_parabola sample_signal empty_caches 10 13 = 0"
  "seen_residual lstsq_parabola sample_signal empty_caches 13 17 = 0"
  by (simp_all add: sample_signal_def residual_eval upt_lists_13 upt_lists_17)

lemma sample_residuals_pos:
  "0 < seen_residual lstsq_parabola sample_signal empty_caches 12 17"
  "0 < seen_residual lstsq_parabola sample_signal empty_caches 11 17"
  "0 < seen_residual lstsq_parabola sample_signal empty_caches 10 17"
  "0 < seen_residual lstsq_parabola sample_signal empty_caches 9 17"
  by (simp_all add: sample_signal_def residual_eval upt_lists_13 upt_lists_17)

lemma sample_last_start:
  "snd (tables_of lstsq_parabola 17 4 sample_signal empty_caches) (17, 4) = 13"
proof -
  let ?D = "fst (tables_of lstsq_parabola 17 4 sample_signal empty_caches)"
  let ?P = "snd (tables_of lstsq_parabola 17 4 sample_signal empty_caches)"
  let ?res = "seen_residual lstsq_parabola sample_signal empty_caches"
  let ?cand = "candidate ?res (\<lambda>s. ?D (s, 4 - 1)) 17"
  have nn: "Finite 0 \<le> ?D (e, l)" for e l
    by (rule tables_of_nonneg) (simp add: empty_caches_def)
  have "?D (5, 1) \<le> cost_add (?D (0, 1 - 1)) (Finite (?res 0 5))"
    by (rule tables_of_le_candidate) simp_all
  then have a: "?D (5, 1) \<le> Finite 0" by (simp add: tables_of_origin sample_residuals_zero)
  have "?D (10, 2) \<le> cost_add (?D (5, 2 - 1)) (Finite (?res 5 10))"
    by (rule tables_of_le_candidate) simp_all
  also have "\<dots> \<le> cost_add (Finite 0) (Finite (?res 5 10))"
    using a by (intro cost_add_mono) simp
  finally have b: "?D (10, 2) \<le> Finite 0" by (simp add: sample_residuals_zero)
  have "?D (13, 3) \<le> cost_add (?D (10, 3 - 1)) (Finite (?res 10 13))"
    by (rule tables_of_le_candidate) simp_all
  also have "\<dots> \<le> cost_add (Finite 0) (Finite (?res 10 13))"
    using b by (intro cost_add_mono) simp
  finally have c: "?D (13, 3) \<le> Finite 0" by (simp add: sample_residuals_zero)
  have "?cand 13 \<le> cost_add (Finite 0) (Finite (?res 13 17))"
    unfolding candidate_def using c by (intro cost_add_mono) simp
  then have c13: "?cand 13 \<le> Finite 0" by (simp add: sample_residuals_zero)
  have pos: "Finite 0 < ?cand s" if "s \<in> {9, 10, 11, 12}" for s
    unfolding candidate_def using that nn[of s 3]
    by (intro cost_add_pos) (auto simp: sample_residuals_pos)
  have fin: "?D (17, 4) \<noteq> Infinity"
    by (subst tables_of_D_finite_iff) (simp_all add: min_len_values)
  have "scan_inv ?res (\<lambda>s. ?D (s, 4 - 1)) 17 (17 - 4 + 1) (?D (17, 4), ?P (17, 4))"
    by (rule tables_of_recurrence) simp_all
  then obtain s where s: "s < 17 - 4 + 1" "?P (17, 4) = int s" "?D (s, 4 - 1) \<noteq> Infinity"
    "\<forall>t<17 - 4 + 1. 3 \<le> 17 - t \<longrightarrow> ?cand s \<le> ?cand t"
    unfolding scan_inv_def using fin by auto
  from s(3) have "9 \<le> s"
    using tables_of_D_finite_iff[of 3 4 lstsq_parabola 17 sample_signal empty_caches s]
    by (simp add: min_len_values)
  from s(4) have "?cand s \<le> ?cand 13" by simp
  from this c13 have le0: "?cand s \<le> Finite 0" by (rule order_trans)
  have "s = 13"
  proof (rule ccontr)
    assume "s \<noteq> 13"
    with s(1) \<open>9 \<le> s\<close> have "s \<in> {9, 10, 11, 12}" by auto
    from pos[OF this] le0 show False by simp
  qed
  with s(2) show ?thesis by simp
qed

lemma sample_median: "median (map z_of sample_points) = 1"
  by (simp add: median_def sample_points_def z_of_def)

lemma sample_run:
  "\<exists>v st'. bounding_box_3d lstsq_parabola sample_points (\<lambda>t. 0) (\<lambda>t. 0)
              (empty_caches, Map.empty) = Inr (v, st')"
proof -
  have len: "length sample_signal = 17" "length sample_points = 17"
    by (simp_all add: sample_signal_def sample_points_def)
  from segment_path_from_13[OF len(1) sample_last_start] obtain c1 where
    seg: "segment lstsq_parabola 17 4 sample_signal empty_caches = Inr ([2, 5, 8, 12], c1)"
    by blast
  have fi: "fancy_index sample_points [2, 5, 8, 12]
      = Inr [(1, 0, 0), (- 1, 0, 0), (0, 1, 1), (0, 0, 3)]"
    by (simp add: sample_points_def np_index_def)
  obtain ll lr ur ul where
    rect: "rectangle [(1, 0, 0), (- 1, 0, 0), (0, 1, 1), (0, 0, 3)] = Inr (ll, lr, ur, ul)"
    by (simp add: rectangle_def Let_def)
  have "\<exists>st2. plot_segments lstsq_parabola [2, 5, 8, 12] sample_signal (c1, Map.empty) = Inr st2"
    by (rule plot_segments_total) (auto simp: plot_ranges_def len)
  then obtain st2 where
    plots: "plot_segments lstsq_parabola [2, 5, 8, 12] sample_signal (c1, Map.empty) = Inr st2"
    by blast
  let ?lo = "filter (\<lambda>p. z_of p < median (map z_of sample_points)) sample_points"
  let ?hi = "filter (\<lambda>p. z_of p > median (map z_of sample_points)) sample_points"
  have lo: "0 < length ?lo" and hi: "0 < length ?hi"
    unfolding sample_median by (simp_all add: sample_points_def z_of_def)
  have "\<forall>t<100. (\<lambda>t :: nat. 0 :: nat) t < length ?lo" using lo by simp
  from ransac_prefix[OF this, of "1 / 2"] obtain fz fm where
    floor: "ransac_z_fit ?lo 100 (1 / 2) (\<lambda>t. 0) = Inr (fz, fm)"
    unfolding ransac_z_fit_def by auto
  have "\<forall>t<100. (\<lambda>t :: nat. 0 :: nat) t < length ?hi" using hi by simp
  from ransac_prefix[OF this, of "1 / 2"] obtain cz cm where
    ceil: "ransac_z_fit ?hi 100 (1 / 2) (\<lambda>t. 0) = Inr (cz, cm)"
    unfolding ransac_z_fit_def by auto
  show ?thesis
    unfolding bounding_box_3d_def prod.case Let_def sample_signal_eq
    unfolding len
    unfolding seg sum.case prod.case fi rect plots floor ceil
    by simp
qed

text \<open>
  Claim C9. Every box that \<open>bounding_box_3d\<close> returns has exactly eight vertices; vertex
  \<open>i\<close> and vertex \<open>i + 4\<close> have the same \<open>x\<close> and \<open>y\<close>; the vertices 0 to 3 have the
  floor height as \<open>z\<close> and the vertices 4 to 7 the ceiling height, the two estimates of
  \<open>ransac_z_fit\<close> on the points below and above the median; both quadrilaterals list
  lower-left, lower-right, upper-right, upper-left: vertices 0 and 3 share the lower \<open>x\<close>,
  1 and 2 the upper \<open>x\<close>, 0 and 1 the lower \<open>y\<close>, 3 and 2 the upper \<open>y\<close>. A call in
  which \<open>segment\<close>, the lookup of the path points, a \<open>plot_parab\<close> or a \<open>ransac_z_fit\<close>
  raises builds no box; the call on the seventeen points above returns one.
\<close>

theorem bounding_box_vertices:
  assumes "bounding_box_3d polyfit points choice_floor choice_ceiling st = Inr (v, st')"
  shows "length v = 8 \<and>
         (\<exists>floor_z ceiling_z m1 m2.
            ransac_z_fit (filter (\<lambda>p. z_of p < median (map z_of points)) points)
              100 (1 / 2) choice_floor = Inr (floor_z, m1) \<and>
            ransac_z_fit (filter (\<lambda>p. z_of p > median (map z_of points)) points)
              100 (1 / 2) choice_ceiling = Inr (ceiling_z, m2) \<and>
            (\<forall>i<4. x_of (v ! i) = x_of (v ! (i + 4)) \<and> y_of (v ! i) = y_of (v ! (i + 4)) \<and>
                    z_of (v ! i) = floor_z \<and> z_of (v ! (i + 4)) = ceiling_z)) \<and>
         x_of (v ! 0) = x_of (v ! 3) \<and> x_of (v ! 1) = x_of (v ! 2) \<and>
         y_of (v ! 0) = y_of (v ! 1) \<and> y_of (v ! 3) = y_of (v ! 2) \<and>
         x_of (v ! 0) \<le> x_of (v ! 1) \<and> y_of (v ! 0) \<le> y_of (v ! 3)"
proof -
  from bounding_box_3d_stages[OF assms] obtain path_points ll lr ur ul floor_z ceiling_z m1 m2
    where s: "rectangle path_points = Inr (ll, lr, ur, ul)"
      "ransac_z_fit (filter (\<lambda>p. z_of p < median (map z_of points)) points)
         100 (1 / 2) choice_floor = Inr (floor_z, m1)"
      "ransac_z_fit (filter (\<lambda>p. z_of p > median (map z_of points)) points)
         100 (1 / 2) choice_ceiling = Inr (ceiling_z, m2)"
      "v = rectangle_3d ll lr ur ul floor_z ceiling_z"
    by blast
  have all4: "(\<forall>i<4. Q i) \<longleftrightarrow> Q 0 \<and> Q 1 \<and> Q 2 \<and> Q (3 :: nat)" for Q
  proof -
    have "i < 4 \<longleftrightarrow> i = 0 \<or> i = 1 \<or> i = 2 \<or> i = 3" for i :: nat by auto
    then show ?thesis by auto
  qed
  have pairs: "\<forall>i<4. x_of (v ! i) = x_of (v ! (i + 4)) \<and> y_of (v ! i) = y_of (v ! (i + 4)) \<and>
      z_of (v ! i) = floor_z \<and> z_of (v ! (i + 4)) = ceiling_z"
    unfolding all4 s(4) by (simp add: rectangle_3d_def x_of_def y_of_def z_of_def)
  have ord: "x_of (v ! 0) = x_of (v ! 3) \<and> x_of (v ! 1) = x_of (v ! 2) \<and>
      y_of (v ! 0) = y_of (v ! 1) \<and> y_of (v ! 3) = y_of (v ! 2) \<and>
      x_of (v ! 0) \<le> x_of (v ! 1) \<and> y_of (v ! 0) \<le> y_of (v ! 3)"
    using rectangle_order[OF s(1)] unfolding s(4)
    by (simp add: rectangle_3d_def x_of_def y_of_def)
  have "length v = 8" unfolding s(4) by (simp add: rectangle_3d_def)
  with s(2,3) pairs ord show ?thesis by blast
qed

theorem bounding_box_vertices_witness:
  "\<exists>v st'. bounding_box_3d lstsq_parabola sample_points (\<lambda>t. 0) (\<lambda>t. 0)
              (empty_caches, Map.empty) = Inr (v, st') \<and>
     length v = 8 \<and>
     x_of (v ! 0) = x_of (v ! (0 + 4)) \<and> y_of (v ! 0) = y_of (v ! (0 + 4)) \<and>
     x_of (v ! 0) \<le> x_of (v ! 1) \<and> y_of (v ! 0) \<le> y_of (v ! 3)"
proof -
  from sample_run obtain v st' where
    run: "bounding_box_3d lstsq_parabola sample_points (\<lambda>t. 0) (\<lambda>t. 0)
            (empty_caches, Map.empty) = Inr (v, st')"
    by blast
  from bounding_box_vertices[OF run] obtain floor_z ceiling_z where
    f: "length v = 8"
      "\<forall>i<4. x_of (v ! i) = x_of (v ! (i + 4)) \<and> y_of (v ! i) = y_of (v ! (i + 4)) \<and>
              z_of (v ! i) = floor_z \<and> z_of (v ! (i + 4)) = ceiling_z"
      "x_of (v ! 0) \<le> x_of (v ! 1)" "y_of (v ! 0) \<le> y_of (v ! 3)"
    by blast
  have "(0 :: nat) < 4" by simp
  with f(2) have "x_of (v ! 0) = x_of (v ! (0 + 4)) \<and> y_of (v ! 0) = y_of (v ! (0 + 4))"
    by blast
  with run f(1,3,4) show ?thesis by blast
qed

end
